theory Spec2Isabelle
  imports Main
begin

section \<open>Status values\<close>

text \<open>
  Modelled from the spec: the \<^verbatim>\<open>Status\<close> class is declared outside the files at
  hand. A status is \<^verbatim>\<open>Status::OK()\<close> or an error kind with a message; the kinds
  are those that the thread pool and the task executor build themselves, and
  \<open>RuntimeError\<close> stands for whatever \<^verbatim>\<open>kudu::Thread::Create\<close> or a user
  task reports.
\<close>

datatype Status =
    OK
  | Uninitialized string
  | ServiceUnavailable string
  | NotSupported string
  | Aborted string
  | RuntimeError string

fun ok :: "Status \<Rightarrow> bool" where
  "ok OK = True"
| "ok _ = False"

fun IsUninitialized :: "Status \<Rightarrow> bool" where
  "IsUninitialized (Uninitialized _) = True"
| "IsUninitialized _ = False"

text \<open>A failed \<^verbatim>\<open>CHECK\<close> aborts the process.\<close>

datatype check_failure = CheckFailed

section \<open>ThreadPoolBuilder\<close>

text \<open>
  Modelled from the spec: \<^verbatim>\<open>MonoDelta\<close>, the type of the idle timeout, is declared
  outside the files at hand. It is a signed duration, taken here as a number of
  nanoseconds.
\<close>

datatype MonoDelta = MonoDelta (nanos: int)

definition FromMilliseconds :: "int \<Rightarrow> MonoDelta" where
  "FromMilliseconds ms = MonoDelta (ms * 1000000)"

definition INT_MAX :: int where
  "INT_MAX = 2147483647"

record ThreadPoolBuilder =
  b_name :: string
  b_min_threads :: int
  b_max_threads :: int
  b_max_queue_size :: int
  b_timeout :: MonoDelta

text \<open>
  The constructor. \<open>NumCPUs\<close> is the value of \<^verbatim>\<open>base::NumCPUs()\<close>, a
  property of the machine.
\<close>

definition ThreadPoolBuilder_new :: "int \<Rightarrow> string \<Rightarrow> ThreadPoolBuilder" where
  "ThreadPoolBuilder_new NumCPUs nm =
     \<lparr> b_name = nm,
       b_min_threads = 0,
       b_max_threads = NumCPUs,
       b_max_queue_size = INT_MAX,
       b_timeout = FromMilliseconds 500 \<rparr>"

definition set_min_threads :: "int \<Rightarrow> ThreadPoolBuilder \<Rightarrow> check_failure + ThreadPoolBuilder" where
  "set_min_threads n b =
     (if n \<ge> 0 then Inr (b\<lparr>b_min_threads := n\<rparr>) else Inl CheckFailed)"

definition set_max_threads :: "int \<Rightarrow> ThreadPoolBuilder \<Rightarrow> check_failure + ThreadPoolBuilder" where
  "set_max_threads n b =
     (if n > 0 then Inr (b\<lparr>b_max_threads := n\<rparr>) else Inl CheckFailed)"

definition set_max_queue_size :: "int \<Rightarrow> ThreadPoolBuilder \<Rightarrow> check_failure + ThreadPoolBuilder" where
  "set_max_queue_size n b =
     (if n > 0 then Inr (b\<lparr>b_max_queue_size := n\<rparr>) else Inl CheckFailed)"

definition set_timeout :: "MonoDelta \<Rightarrow> ThreadPoolBuilder \<Rightarrow> check_failure + ThreadPoolBuilder" where
  "set_timeout t b = Inr (b\<lparr>b_timeout := t\<rparr>)"

section \<open>ThreadPool\<close>

text \<open>
  A \<^verbatim>\<open>Trace\<close> object is known by its identity only. The pool calls
  \<^verbatim>\<open>AddRef\<close> and \<^verbatim>\<open>Release\<close> on it, creates threads, notifies
  condition variables and writes log lines; each such call to a collaborator is recorded,
  in program order, in the field \<open>events\<close> of the pool. The counters of the pool are
  C++ \<^verbatim>\<open>int\<close>s; they are integers here, and the last section shows that no value
  computed from a reachable state leaves the range of \<^verbatim>\<open>int\<close>.
\<close>

type_synonym trace_id = nat

datatype 'r event =
    ThreadCreate bool Status
  | TraceAddRef trace_id
  | TraceRelease trace_id
  | AdoptTrace "trace_id option"
  | RunnableRun 'r
  | NotifyOne_not_empty
  | NotifyAll_not_empty
  | NotifyAll_idle
  | NotifyAll_no_threads
  | LogWarning Status
  | VLog

record 'r QueueEntry =
  runnable :: 'r
  trace :: "trace_id option"

record 'r ThreadPool =
  name :: string
  min_threads :: int
  max_threads :: int
  max_queue_size :: int
  timeout :: MonoDelta
  pool_status :: Status
  num_threads :: int
  active_threads :: int
  queue :: "'r QueueEntry list"
  queue_size :: int
  events :: "'r event list"

definition emit :: "'r event list \<Rightarrow> 'r ThreadPool \<Rightarrow> 'r ThreadPool" where
  "emit es p = p\<lparr>events := events p @ es\<rparr>"

definition ThreadPool_new :: "ThreadPoolBuilder \<Rightarrow> 'r ThreadPool" where
  "ThreadPool_new b =
     \<lparr> name = b_name b,
       min_threads = b_min_threads b,
       max_threads = b_max_threads b,
       max_queue_size = b_max_queue_size b,
       timeout = b_timeout b,
       pool_status = Uninitialized ''The pool was not initialized.'',
       num_threads = 0,
       active_threads = 0,
       queue = [],
       queue_size = 0,
       events = [] \<rparr>"

text \<open>
  \<open>CreateThreadUnlocked cr p\<close>: \<open>cr\<close> is what
  \<^verbatim>\<open>kudu::Thread::Create\<close> returns for this call. The event records the
  \<open>permanent\<close> argument handed to the new thread's \<^verbatim>\<open>DispatchThread\<close>.
\<close>

definition CreateThreadUnlocked :: "Status \<Rightarrow> 'r ThreadPool \<Rightarrow> Status \<times> 'r ThreadPool" where
  "CreateThreadUnlocked cr p =
     (let permanent = (num_threads p < min_threads p);
          p1 = emit [ThreadCreate permanent cr] p
      in if ok cr then (cr, p1\<lparr>num_threads := num_threads p1 + 1\<rparr>) else (cr, p1))"

fun release_traces :: "'r QueueEntry list \<Rightarrow> 'r event list" where
  "release_traces [] = []"
| "release_traces (e # es) =
     (case trace e of Some t \<Rightarrow> TraceRelease t # release_traces es
                    | None \<Rightarrow> release_traces es)"

definition ClearQueue :: "'r ThreadPool \<Rightarrow> 'r ThreadPool" where
  "ClearQueue p = (emit (release_traces (queue p)) p)\<lparr>queue := [], queue_size := 0\<rparr>"

text \<open>
  \<^verbatim>\<open>Shutdown\<close> sets the status, clears the queue, wakes the workers and then
  loops on \<^verbatim>\<open>num_threads_ > 0\<close>, waiting on \<^verbatim>\<open>no_threads_cond_\<close>.
  The wait gives the lock up, so the call is a sequence of critical sections:
  \<open>Shutdown\<close> is the first one, \<open>Shutdown_wakeup\<close> each later one; each ends either
  with the call returning or in the wait again.
\<close>

datatype shutdown_pc = ShutdownReturned | ShutdownWaiting

definition Shutdown_loop :: "'r ThreadPool \<Rightarrow> shutdown_pc" where
  "Shutdown_loop p = (if num_threads p > 0 then ShutdownWaiting else ShutdownReturned)"

definition Shutdown_enter :: "'r ThreadPool \<Rightarrow> 'r ThreadPool" where
  "Shutdown_enter p =
     emit [NotifyAll_not_empty]
       (ClearQueue (p\<lparr>pool_status := ServiceUnavailable ''The pool has been shut down.''\<rparr>))"

definition Shutdown :: "'r ThreadPool \<Rightarrow> shutdown_pc \<times> 'r ThreadPool" where
  "Shutdown p = (let p' = Shutdown_enter p in (Shutdown_loop p', p'))"

definition Shutdown_wakeup :: "'r ThreadPool \<Rightarrow> shutdown_pc \<times> 'r ThreadPool" where
  "Shutdown_wakeup p = (Shutdown_loop p, p)"

text \<open>
  \<^verbatim>\<open>Init\<close>. \<open>cr i\<close> is the result of the \<open>i\<close>-th thread creation. When a
  creation fails, \<^verbatim>\<open>Init\<close> calls \<^verbatim>\<open>Shutdown()\<close> while it still owns
  \<^verbatim>\<open>lock_\<close>, a \<^verbatim>\<open>boost::mutex\<close>, which \<^verbatim>\<open>Shutdown\<close> locks first
  thing: the calling thread blocks on its own lock, the call does not return and no
  other critical section of this pool runs any more. That outcome is \<open>InitStuck\<close>,
  with the pool as it is at that moment.
\<close>

datatype 'r init_result = InitReturned Status "'r ThreadPool" | InitStuck "'r ThreadPool"

function Init_loop :: "(nat \<Rightarrow> Status) \<Rightarrow> int \<Rightarrow> int \<Rightarrow> 'r ThreadPool \<Rightarrow> 'r init_result" where
  "Init_loop cr i n p =
     (if i < n then
        (case CreateThreadUnlocked (cr (nat i)) p of
           (status, p') \<Rightarrow> if \<not> ok status then InitStuck p' else Init_loop cr (i + 1) n p')
      else InitReturned OK p)"
  by pat_completeness auto
termination
  by (relation "measure (\<lambda>(cr, i, n, p). nat (n - i))") auto

definition Init :: "(nat \<Rightarrow> Status) \<Rightarrow> 'r ThreadPool \<Rightarrow> 'r init_result" where
  "Init cr p =
     (if \<not> IsUninitialized (pool_status p)
      then InitReturned (NotSupported ''The thread pool is already initialized'') p
      else Init_loop cr 0 (min_threads p) (p\<lparr>pool_status := OK\<rparr>))"

text \<open>Decimal rendering of an \<^verbatim>\<open>int\<close>, for the queue-full message.\<close>

fun digits :: "nat \<Rightarrow> string" where
  "digits n = (if n < 10 then [char_of (48 + n)] else digits (n div 10) @ [char_of (48 + n mod 10)])"

definition int_to_string :: "int \<Rightarrow> string" where
  "int_to_string i = (if i < 0 then CHR ''-'' # digits (nat (- i)) else digits (nat i))"

text \<open>
  \<^verbatim>\<open>Submit\<close>. \<open>cur\<close> is \<^verbatim>\<open>Trace::CurrentTrace()\<close> of the submitting
  thread, \<open>cr\<close> what \<^verbatim>\<open>Thread::Create\<close> returns if it is called.
\<close>

definition enqueue :: "'r \<Rightarrow> trace_id option \<Rightarrow> 'r ThreadPool \<Rightarrow> 'r ThreadPool" where
  "enqueue task cur p =
     (let e = \<lparr> runnable = task, trace = cur \<rparr>;
          p1 = (case trace e of Some t \<Rightarrow> emit [TraceAddRef t] p | None \<Rightarrow> p);
          p2 = p1\<lparr>queue := queue p1 @ [e]\<rparr>;
          p3 = p2\<lparr>queue_size := queue_size p2 + 1\<rparr>
      in emit [NotifyOne_not_empty] p3)"

definition Submit :: "'r \<Rightarrow> trace_id option \<Rightarrow> Status \<Rightarrow> 'r ThreadPool \<Rightarrow> Status \<times> 'r ThreadPool" where
  "Submit task cur cr p =
     (if \<not> ok (pool_status p) then (pool_status p, p)
      else if queue_size p = max_queue_size p then
        (ServiceUnavailable (''Thread pool queue is full ('' @ int_to_string (queue_size p) @ '' items)''), p)
      else
        let inactive_threads = num_threads p - active_threads p;
            additional_threads = (queue_size p + 1) - inactive_threads
        in if additional_threads > 0 \<and> num_threads p < max_threads p then
             (case CreateThreadUnlocked cr p of
                (status, p1) \<Rightarrow>
                  if \<not> ok status then
                    (if num_threads p1 = 0 then (status, p1)
                     else (OK, enqueue task cur (emit [LogWarning status] p1)))
                  else (OK, enqueue task cur p1))
           else (OK, enqueue task cur p))"

text \<open>
  \<^verbatim>\<open>DispatchThread\<close>, the body of a worker. The worker owns the lock except
  while it waits on \<^verbatim>\<open>not_empty_\<close> and while it runs a task, so its run is a
  sequence of critical sections. Each starts at a \<open>resume\<close> point (the thread's start,
  the return of a wait, the \<^verbatim>\<open>lock()\<close> after a task) and ends at a \<open>yield\<close>:
  in a wait, in the unlocked part with the entry it took, or with the thread gone.
\<close>

datatype wait_result = Notified | TimedOut

datatype resume = AtStart | AfterWait | AfterTimedWait wait_result | AfterRun

datatype 'r yield = InWait | InTimedWait | Unlocked "'r QueueEntry" | Exited

text \<open>What the loop does after \<^verbatim>\<open>break\<close>, still under the lock.\<close>

definition DispatchThread_exit :: "'r ThreadPool \<Rightarrow> check_failure + 'r ThreadPool" where
  "DispatchThread_exit p =
     (let p1 = p\<lparr>num_threads := num_threads p - 1\<rparr>
      in if num_threads p1 = 0 then
           (let p2 = emit [NotifyAll_no_threads] p1
            in if queue p2 = [] then Inr p2 else Inl CheckFailed)
         else Inr p1)"

text \<open>One pass from the head of \<^verbatim>\<open>while (true)\<close> to the next yield.\<close>

definition DispatchThread_top :: "bool \<Rightarrow> 'r ThreadPool \<Rightarrow> check_failure + 'r yield \<times> 'r ThreadPool" where
  "DispatchThread_top permanent p =
     (if \<not> ok (pool_status p) then
        map_sum id (Pair Exited) (DispatchThread_exit (emit [VLog] p))
      else
        (case queue p of
           [] \<Rightarrow> if permanent then Inr (InWait, p) else Inr (InTimedWait, p)
         | entry # rest \<Rightarrow>
             Inr (Unlocked entry,
                  p\<lparr>queue := rest,
                    queue_size := queue_size p - 1,
                    active_threads := active_threads p + 1\<rparr>)))"

definition DispatchThread_section ::
  "bool \<Rightarrow> resume \<Rightarrow> 'r ThreadPool \<Rightarrow> check_failure + 'r yield \<times> 'r ThreadPool" where
  "DispatchThread_section permanent r p =
     (case r of
        AtStart \<Rightarrow> DispatchThread_top permanent p
      | AfterWait \<Rightarrow> DispatchThread_top permanent p
      | AfterTimedWait w \<Rightarrow>
          if w = TimedOut \<and> queue p = [] then
            map_sum id (Pair Exited) (DispatchThread_exit (emit [VLog] p))
          else DispatchThread_top permanent p
      | AfterRun \<Rightarrow>
          (let p1 = p\<lparr>active_threads := active_threads p - 1\<rparr>;
               p2 = (if active_threads p1 = 0 then emit [NotifyAll_idle] p1 else p1)
           in DispatchThread_top permanent p2))"

text \<open>The part of the loop body that runs without the lock.\<close>

definition DispatchThread_unlocked :: "'r QueueEntry \<Rightarrow> 'r ThreadPool \<Rightarrow> 'r ThreadPool" where
  "DispatchThread_unlocked entry p =
     emit ([AdoptTrace (trace entry)]
           @ (case trace entry of Some t \<Rightarrow> [TraceRelease t] | None \<Rightarrow> [])
           @ [RunnableRun (runnable entry)]) p"

section \<open>The pool and its threads\<close>

text \<open>
  Every member function of the pool takes \<^verbatim>\<open>lock_\<close> first, so the behaviour of
  a pool shared by several threads is an interleaving of the critical sections defined
  above. A worker thread is known by the \<open>permanent\<close> flag it was created with and by
  the place where it stands between two critical sections.
\<close>

datatype 'r place = Created | Parked "'r yield" | Relocking

record 'r worker =
  permanent :: bool
  place :: "'r place"

record 'r sys =
  pool :: "'r ThreadPool"
  workers :: "'r worker list"
  stuck :: bool

text \<open>
  The builders a program can hold: the constructor's result, changed by setters whose
  \<^verbatim>\<open>CHECK\<close> passed. The machine has at least one CPU.
\<close>

inductive built :: "ThreadPoolBuilder \<Rightarrow> bool" where
  built_new: "0 < NumCPUs \<Longrightarrow> built (ThreadPoolBuilder_new NumCPUs nm)"
| built_min: "built b \<Longrightarrow> set_min_threads n b = Inr b' \<Longrightarrow> built b'"
| built_max: "built b \<Longrightarrow> set_max_threads n b = Inr b' \<Longrightarrow> built b'"
| built_queue: "built b \<Longrightarrow> set_max_queue_size n b = Inr b' \<Longrightarrow> built b'"
| built_timeout: "built b \<Longrightarrow> set_timeout t b = Inr b' \<Longrightarrow> built b'"

definition sys_new :: "ThreadPoolBuilder \<Rightarrow> 'r sys" where
  "sys_new b = \<lparr> pool = ThreadPool_new b, workers = [], stuck = False \<rparr>"

text \<open>The threads that the calls recorded in a list of events have started.\<close>

fun spawned :: "'r event list \<Rightarrow> 'r worker list" where
  "spawned [] = []"
| "spawned (ThreadCreate perm st # es) =
     (if ok st then \<lparr> permanent = perm, place = Created \<rparr> # spawned es else spawned es)"
| "spawned (_ # es) = spawned es"

definition new_events :: "'r ThreadPool \<Rightarrow> 'r ThreadPool \<Rightarrow> 'r event list" where
  "new_events p p' = drop (length (events p)) (events p')"

datatype 'r action =
    DoInit "nat \<Rightarrow> Status"
  | DoSubmit 'r "trace_id option" Status
  | DoShutdown
  | WorkerLocks nat wait_result
  | WorkerRuns nat

text \<open>
  The critical section a worker enters from its place; \<open>w\<close> is what a timed wait
  reports. A worker in the unlocked part, or gone, enters none.
\<close>

fun resume_of :: "'r place \<Rightarrow> wait_result \<Rightarrow> resume option" where
  "resume_of Created w = Some AtStart"
| "resume_of (Parked InWait) w = Some AfterWait"
| "resume_of (Parked InTimedWait) w = Some (AfterTimedWait w)"
| "resume_of (Parked (Unlocked e)) w = None"
| "resume_of (Parked Exited) w = None"
| "resume_of Relocking w = Some AfterRun"

text \<open>
  One step of the whole. \<open>None\<close>: the action cannot happen in this state.
  \<open>Some (Inl CheckFailed)\<close>: a \<^verbatim>\<open>CHECK\<close> fails and the process aborts.
\<close>

definition sys_step :: "'r action \<Rightarrow> 'r sys \<Rightarrow> (check_failure + 'r sys) option" where
  "sys_step a s =
     (if stuck s then None
      else case a of
        DoInit cr \<Rightarrow>
          (case Init cr (pool s) of
             InitReturned st p' \<Rightarrow>
               Some (Inr (s\<lparr>pool := p', workers := workers s @ spawned (new_events (pool s) p')\<rparr>))
           | InitStuck p' \<Rightarrow>
               Some (Inr (s\<lparr>pool := p', workers := workers s @ spawned (new_events (pool s) p'),
                            stuck := True\<rparr>)))
      | DoSubmit task cur cr \<Rightarrow>
          (case Submit task cur cr (pool s) of
             (st, p') \<Rightarrow>
               Some (Inr (s\<lparr>pool := p', workers := workers s @ spawned (new_events (pool s) p')\<rparr>)))
      | DoShutdown \<Rightarrow> Some (Inr (s\<lparr>pool := snd (Shutdown (pool s))\<rparr>))
      | WorkerLocks i w \<Rightarrow>
          (if i < length (workers s) then
             (case resume_of (place (workers s ! i)) w of
                None \<Rightarrow> None
              | Some r \<Rightarrow>
                  (case DispatchThread_section (permanent (workers s ! i)) r (pool s) of
                     Inl f \<Rightarrow> Some (Inl f)
                   | Inr (y, p') \<Rightarrow>
                       Some (Inr (s\<lparr>pool := p',
                                    workers := (workers s)[i := (workers s ! i)\<lparr>place := Parked y\<rparr>]\<rparr>))))
           else None)
      | WorkerRuns i \<Rightarrow>
          (if i < length (workers s) then
             (case place (workers s ! i) of
                Parked (Unlocked e) \<Rightarrow>
                  Some (Inr (s\<lparr>pool := DispatchThread_unlocked e (pool s),
                               workers := (workers s)[i := (workers s ! i)\<lparr>place := Relocking\<rparr>]\<rparr>))
              | _ \<Rightarrow> None)
           else None))"

inductive reachable :: "'r sys \<Rightarrow> bool" where
  reachable_new: "built b \<Longrightarrow> reachable (sys_new b)"
| reachable_step: "reachable s \<Longrightarrow> sys_step a s = Some (Inr s') \<Longrightarrow> reachable s'"

fun live :: "'r worker \<Rightarrow> bool" where
  "live w = (place w \<noteq> Parked Exited)"

fun busy :: "'r worker \<Rightarrow> bool" where
  "busy w = (case place w of Parked (Unlocked e) \<Rightarrow> True | Relocking \<Rightarrow> True | _ \<Rightarrow> False)"

definition how_many :: "('a \<Rightarrow> bool) \<Rightarrow> 'a list \<Rightarrow> int" where
  "how_many P xs = int (length (filter P xs))"

section \<open>FutureTask\<close>

datatype TaskState =
  kTaskPendingState | kTaskRunningState | kTaskFinishedState | kTaskAbortedState

text \<open>
  Modelled from the spec: the \<^verbatim>\<open>Task\<close> interface is declared outside the files
  at hand. A task is an object of some type \<open>'t\<close> with the two functions
  \<^verbatim>\<open>Run\<close>, which returns a status, and \<^verbatim>\<open>Abort\<close>, which returns a
  boolean; each may change the object.
\<close>

record 't Task =
  Task_Run :: "'t \<Rightarrow> Status \<times> 't"
  Task_Abort :: "'t \<Rightarrow> bool \<times> 't"

text \<open>
  Calls that leave the \<^verbatim>\<open>FutureTask\<close>, in program order: the callbacks of the
  listeners (\<open>'l\<close> names a listener), the task's functions and the latch.
\<close>

datatype 'l call =
    OnSuccess 'l
  | OnFailure 'l Status
  | TaskRun
  | TaskAbort
  | CountDown

record ('l, 't) FutureTask =
  state :: TaskState
  status :: Status
  task :: 't
  listeners :: "'l list"
  latch :: nat
  calls :: "'l call list"

text \<open>
  The constructor names \<^verbatim>\<open>state_\<close>, \<^verbatim>\<open>task_\<close> and \<^verbatim>\<open>latch_\<close>;
  \<^verbatim>\<open>status_\<close> is default-constructed, which for \<^verbatim>\<open>Status\<close> is OK
  (the results below that depend on this value are also shown for any other).
\<close>

definition FutureTask_new :: "'t \<Rightarrow> ('l, 't) FutureTask" where
  "FutureTask_new t =
     \<lparr> state = kTaskPendingState, status = OK, task = t, listeners = [], latch = 1, calls = [] \<rparr>"

definition call :: "'l call list \<Rightarrow> ('l, 't) FutureTask \<Rightarrow> ('l, 't) FutureTask" where
  "call cs ft = ft\<lparr>calls := calls ft @ cs\<rparr>"

text \<open>
  Modelled from the spec: the latch class is declared outside the files at hand. It is a
  single-shot completion signal: a count, 1 at construction, that
  \<^verbatim>\<open>CountDown\<close> lowers by one unless it is 0; waiters are released at 0.
\<close>

definition latch_CountDown :: "('l, 't) FutureTask \<Rightarrow> ('l, 't) FutureTask" where
  "latch_CountDown ft = call [CountDown] (ft\<lparr>latch := latch ft - 1\<rparr>)"

definition set_state :: "TaskState \<Rightarrow> ('l, 't) FutureTask \<Rightarrow> bool \<times> ('l, 't) FutureTask" where
  "set_state st ft =
     (if state ft = kTaskAbortedState then (False, ft) else (True, ft\<lparr>state := st\<rparr>))"

text \<open>
  \<^verbatim>\<open>Run\<close> in parts, since other threads can call \<^verbatim>\<open>Abort\<close> and
  \<^verbatim>\<open>AddListener\<close> wherever \<^verbatim>\<open>Run\<close> does not hold \<^verbatim>\<open>lock_\<close>: up to
  the call of the task (\<open>Run_begin\<close>, whose \<open>True\<close> says that \<^verbatim>\<open>Run\<close> has
  returned), the task's own run with the assignment to \<^verbatim>\<open>status_\<close>
  (\<open>Run_task\<close>), the second \<^verbatim>\<open>set_state\<close>, whose result is dropped
  (\<open>Run_mark_finished\<close>), and the notification of the listeners followed by the
  count-down of the latch (\<open>Run_notify\<close>). \<open>Run_finish\<close> is the last two together
  and \<open>Run\<close> the whole, both with no other thread in between.
\<close>

definition Run_begin :: "('l, 't) FutureTask \<Rightarrow> bool \<times> ('l, 't) FutureTask" where
  "Run_begin ft =
     (case set_state kTaskRunningState ft of
        (False, ft1) \<Rightarrow>
          (let s = Aborted ''Task was aborted before it ran'';
               ft2 = call (map (\<lambda>callback. OnFailure callback s) (listeners ft1)) ft1
           in (True, latch_CountDown ft2))
      | (True, ft1) \<Rightarrow> (False, ft1))"

definition Run_task :: "'t Task \<Rightarrow> ('l, 't) FutureTask \<Rightarrow> ('l, 't) FutureTask" where
  "Run_task T ft =
     (case Task_Run T (task ft) of
        (st, t') \<Rightarrow> (call [TaskRun] ft)\<lparr>task := t', status := st\<rparr>)"

definition Run_mark_finished :: "('l, 't) FutureTask \<Rightarrow> ('l, 't) FutureTask" where
  "Run_mark_finished ft = snd (set_state kTaskFinishedState ft)"

definition Run_notify :: "('l, 't) FutureTask \<Rightarrow> ('l, 't) FutureTask" where
  "Run_notify ft =
     (let ft1 = (if ok (status ft)
                 then call (map OnSuccess (listeners ft)) ft
                 else call (map (\<lambda>callback. OnFailure callback (status ft)) (listeners ft)) ft)
      in latch_CountDown ft1)"

definition Run_finish :: "('l, 't) FutureTask \<Rightarrow> ('l, 't) FutureTask" where
  "Run_finish ft = Run_notify (Run_mark_finished ft)"

definition Run :: "'t Task \<Rightarrow> ('l, 't) FutureTask \<Rightarrow> ('l, 't) FutureTask" where
  "Run T ft =
     (case Run_begin ft of
        (True, ft1) \<Rightarrow> ft1
      | (False, ft1) \<Rightarrow> Run_finish (Run_task T ft1))"

definition Abort :: "'t Task \<Rightarrow> ('l, 't) FutureTask \<Rightarrow> bool \<times> ('l, 't) FutureTask" where
  "Abort T ft =
     (if state ft \<noteq> kTaskFinishedState then
        (case Task_Abort T (task ft) of
           (b, t') \<Rightarrow>
             (let ft1 = (call [TaskAbort] ft)\<lparr>task := t'\<rparr>
              in if b then (True, ft1\<lparr>state := kTaskAbortedState\<rparr>) else (False, ft1)))
      else (False, ft))"

definition AddListener :: "'l \<Rightarrow> ('l, 't) FutureTask \<Rightarrow> ('l, 't) FutureTask" where
  "AddListener callback ft =
     (if state ft \<noteq> kTaskFinishedState \<and> state ft \<noteq> kTaskAbortedState then
        ft\<lparr>listeners := listeners ft @ [callback]\<rparr>
      else if ok (status ft) then call [OnSuccess callback] ft
      else call [OnFailure callback (status ft)] ft)"

definition is_aborted :: "('l, 't) FutureTask \<Rightarrow> bool" where
  "is_aborted ft = (state ft = kTaskAbortedState)"

definition is_done :: "('l, 't) FutureTask \<Rightarrow> bool" where
  "is_done ft = (state ft = kTaskFinishedState \<or> state ft = kTaskAbortedState)"

definition is_running :: "('l, 't) FutureTask \<Rightarrow> bool" where
  "is_running ft = (state ft = kTaskRunningState)"

text \<open>The callbacks among a list of calls, and the listeners they went to.\<close>

fun fired :: "'l call list \<Rightarrow> 'l list" where
  "fired [] = []"
| "fired (OnSuccess l # cs) = l # fired cs"
| "fired (OnFailure l s # cs) = l # fired cs"
| "fired (_ # cs) = fired cs"

text \<open>
  What a holder of the \<^verbatim>\<open>Future\<close> interface can do to the object, besides
  waiting and reading: abort it and add listeners.
\<close>

datatype 'l future_op = FAbort | FAddListener 'l

fun future_ops :: "'t Task \<Rightarrow> 'l future_op list \<Rightarrow> ('l, 't) FutureTask \<Rightarrow> ('l, 't) FutureTask" where
  "future_ops T [] ft = ft"
| "future_ops T (FAbort # os) ft = future_ops T os (snd (Abort T ft))"
| "future_ops T (FAddListener l # os) ft = future_ops T os (AddListener l ft)"

text \<open>The listeners that a sequence of operations registers.\<close>

fun added :: "'l future_op list \<Rightarrow> 'l list" where
  "added [] = []"
| "added (FAbort # os) = added os"
| "added (FAddListener l # os) = l # added os"

text \<open>A task that agrees to be aborted, and one that does not (the default).\<close>

definition abortable :: "unit Task" where
  "abortable = \<lparr> Task_Run = (\<lambda>t. (OK, t)), Task_Abort = (\<lambda>t. (True, t)) \<rparr>"

definition not_abortable :: "unit Task" where
  "not_abortable = \<lparr> Task_Run = (\<lambda>t. (OK, t)), Task_Abort = (\<lambda>t. (False, t)) \<rparr>"

section \<open>TaskExecutor\<close>

text \<open>
  The executor owns a pool whose runnables are \<^verbatim>\<open>FutureTask\<close> objects. The
  objects are shared between the pool's queue and the callers' handles, so they live in
  a store and are referred to by address; \<open>next_addr\<close> is the address the next
  \<^verbatim>\<open>new\<close> returns.
\<close>

type_synonym addr = nat

record ('l, 't) TaskExecutor =
  thread_pool :: "addr ThreadPool"
  store :: "addr \<rightharpoonup> ('l, 't) FutureTask"
  next_addr :: addr

text \<open>
  \<^verbatim>\<open>Submit(task, future)\<close>. The argument \<open>future\<close> is \<open>None\<close> for a null
  pointer and \<open>Some h\<close> for a pointer to a handle holding \<open>h\<close> (\<open>None\<close>: an empty
  \<^verbatim>\<open>shared_ptr\<close>); the second component of the result is the handle afterwards.
  \<open>dchecks\<close> says whether \<^verbatim>\<open>DCHECK\<close> is compiled in.
\<close>

definition TaskExecutor_Submit ::
  "bool \<Rightarrow> 't \<Rightarrow> addr option option \<Rightarrow> trace_id option \<Rightarrow> Status \<Rightarrow> ('l, 't) TaskExecutor
     \<Rightarrow> check_failure + Status \<times> addr option option \<times> ('l, 't) TaskExecutor" where
  "TaskExecutor_Submit dchecks t future cur cr ex =
     (let future_task = next_addr ex;
          ex1 = ex\<lparr>store := (store ex)(future_task \<mapsto> FutureTask_new t),
                   next_addr := next_addr ex + 1\<rparr>
      in if dchecks \<and> (case future of Some (Some h) \<Rightarrow> True | _ \<Rightarrow> False) then Inl CheckFailed
         else
           (let future' = (case future of None \<Rightarrow> None | Some h \<Rightarrow> Some (Some future_task))
            in case Submit future_task cur cr (thread_pool ex1) of
                 (st, p') \<Rightarrow> Inr (st, future', ex1\<lparr>thread_pool := p'\<rparr>)))"

definition SubmitFutureTask ::
  "addr \<Rightarrow> trace_id option \<Rightarrow> Status \<Rightarrow> ('l, 't) TaskExecutor \<Rightarrow> Status \<times> ('l, 't) TaskExecutor" where
  "SubmitFutureTask future_task cur cr ex =
     (case Submit future_task cur cr (thread_pool ex) of
        (st, p') \<Rightarrow> (st, ex\<lparr>thread_pool := p'\<rparr>))"

text \<open>Every object that the queue refers to has been allocated.\<close>

definition queue_allocated :: "('l, 't) TaskExecutor \<Rightarrow> bool" where
  "queue_allocated ex = list_all (\<lambda>e. runnable e < next_addr ex) (queue (thread_pool ex))"

text \<open>An executor whose pool has not been initialised.\<close>

definition idle_executor :: "(nat, unit) TaskExecutor" where
  "idle_executor =
     \<lparr> thread_pool = ThreadPool_new (ThreadPoolBuilder_new 4 ''p''), store = Map.empty, next_addr = 0 \<rparr>"

section \<open>Invariants of a shared pool\<close>

text \<open>
  \<open>holds t w\<close>: worker \<open>w\<close> has taken an entry with trace \<open>t\<close> from the queue and
  has not yet released the queue's reference. \<open>notices\<close> are the calls that touch
  neither a trace nor a thread.
\<close>

fun holds :: "trace_id \<Rightarrow> 'r worker \<Rightarrow> bool" where
  "holds t w = (case place w of Parked (Unlocked e) \<Rightarrow> trace e = Some t | _ \<Rightarrow> False)"

definition notices :: "'r event set" where
  "notices = {VLog, NotifyAll_idle, NotifyAll_no_threads, NotifyAll_not_empty, NotifyOne_not_empty}
             \<union> range LogWarning \<union> range AdoptTrace \<union> range RunnableRun"

definition inv_counts :: "'r sys \<Rightarrow> bool" where
  "inv_counts s =
     (queue_size (pool s) = int (length (queue (pool s)))
      \<and> num_threads (pool s) = how_many live (workers s)
      \<and> active_threads (pool s) = how_many busy (workers s))"

definition inv_config :: "'r sys \<Rightarrow> bool" where
  "inv_config s =
     (0 \<le> min_threads (pool s) \<and> 1 \<le> max_threads (pool s) \<and> 1 \<le> max_queue_size (pool s))"

definition inv_queue :: "'r sys \<Rightarrow> bool" where
  "inv_queue s =
     (queue_size (pool s) \<le> max_queue_size (pool s)
      \<and> (\<not> ok (pool_status (pool s)) \<longrightarrow> queue (pool s) = []))"

definition inv_workers :: "'r sys \<Rightarrow> bool" where
  "inv_workers s =
     ((IsUninitialized (pool_status (pool s)) \<longrightarrow> workers s = [])
      \<and> (stuck s \<longrightarrow> ok (pool_status (pool s)))
      \<and> (ok (pool_status (pool s)) \<longrightarrow> list_all (\<lambda>w. permanent w \<longrightarrow> live w) (workers s))
      \<and> (ok (pool_status (pool s)) \<and> \<not> stuck s \<longrightarrow>
            how_many permanent (workers s) = min_threads (pool s))
      \<and> list_all (\<lambda>w. (place w = Parked InTimedWait \<longrightarrow> \<not> permanent w)
                     \<and> (place w = Parked InWait \<longrightarrow> permanent w)) (workers s))"

definition inv_traces :: "'r sys \<Rightarrow> bool" where
  "inv_traces s =
     (\<forall>t. how_many (\<lambda>e. e = TraceAddRef t) (events (pool s))
           = how_many (\<lambda>e. e = TraceRelease t) (events (pool s))
             + how_many (\<lambda>e. trace e = Some t) (queue (pool s))
             + how_many (holds t) (workers s))"

definition sys_inv :: "'r sys \<Rightarrow> bool" where
  "sys_inv s = (inv_counts s \<and> inv_config s \<and> inv_queue s \<and> inv_workers s \<and> inv_traces s)"

definition spawn_wanted :: "'r ThreadPool \<Rightarrow> bool" where
  "spawn_wanted p =
     ((queue_size p + 1) - (num_threads p - active_threads p) > 0 \<and> num_threads p < max_threads p)"

definition same_config :: "'r ThreadPool \<Rightarrow> 'r ThreadPool \<Rightarrow> bool" where
  "same_config p p' =
     (name p' = name p \<and> min_threads p' = min_threads p \<and> max_threads p' = max_threads p
      \<and> max_queue_size p' = max_queue_size p \<and> timeout p' = timeout p)"

text \<open>A list of calls none of which touches a trace.\<close>

definition no_trace_calls :: "'r event list \<Rightarrow> bool" where
  "no_trace_calls es = (\<forall>t. TraceAddRef t \<notin> set es \<and> TraceRelease t \<notin> set es)"

fun took :: "'r yield \<Rightarrow> bool" where
  "took (Unlocked e) = True"
| "took _ = False"

section \<open>Observations and example states\<close>

text \<open>The thread creations among a list of calls: the \<open>permanent\<close> flag and the result.\<close>

fun thread_creates :: "'r event list \<Rightarrow> (bool \<times> Status) list" where
  "thread_creates [] = []"
| "thread_creates (ThreadCreate perm st # es) = (perm, st) # thread_creates es"
| "thread_creates (_ # es) = thread_creates es"

text \<open>Every \<^verbatim>\<open>AddRef\<close> the pool has made on a trace is matched by a \<^verbatim>\<open>Release\<close>.\<close>

definition balanced :: "'r ThreadPool \<Rightarrow> bool" where
  "balanced p =
     (\<forall>t. how_many (\<lambda>e. e = TraceAddRef t) (events p) = how_many (\<lambda>e. e = TraceRelease t) (events p))"

definition is_shut_down :: "'r ThreadPool \<Rightarrow> bool" where
  "is_shut_down p = (pool_status p = ServiceUnavailable ''The pool has been shut down.'')"

text \<open>A run of the whole: the actions one after the other, as long as each can happen.\<close>

fun run :: "'r action list \<Rightarrow> 'r sys \<Rightarrow> 'r sys option" where
  "run [] s = Some s"
| "run (a # as) s = (case sys_step a s of Some (Inr s') \<Rightarrow> run as s' | _ \<Rightarrow> None)"

text \<open>
  A pool built with the defaults on a machine with four CPUs, and states it goes through:
  initialised; with one submission queued; with its worker in the timed wait after that task;
  with that worker gone after the timeout; after a submission whose thread creation failed;
  and, on another branch, shut down with two submissions dropped and both workers gone.
  Then a pool with one permanent worker: shut down while the worker waits, and with the
  worker gone.
\<close>

definition demo :: "nat sys" where
  "demo = sys_new (ThreadPoolBuilder_new 4 ''p'')"

definition demo_running :: "nat sys" where
  "demo_running =
     \<lparr>pool = \<lparr>name = ''p'', min_threads = 0, max_threads = 4, max_queue_size = 2147483647,
              timeout = MonoDelta 500000000, pool_status = OK, num_threads = 0,
              active_threads = 0, queue = [], queue_size = 0, events = []\<rparr>,
      workers = [], stuck = False\<rparr>"

definition demo_submitted :: "nat sys" where
  "demo_submitted =
     \<lparr>pool = \<lparr>name = ''p'', min_threads = 0, max_threads = 4, max_queue_size = 2147483647,
              timeout = MonoDelta 500000000, pool_status = OK, num_threads = 1,
              active_threads = 0, queue = [\<lparr>runnable = 7, trace = Some 3\<rparr>], queue_size = 1,
              events = [ThreadCreate False OK, TraceAddRef 3, NotifyOne_not_empty]\<rparr>,
      workers = [\<lparr>permanent = False, place = Created\<rparr>], stuck = False\<rparr>"

definition demo_timed_wait :: "nat sys" where
  "demo_timed_wait =
     \<lparr>pool = \<lparr>name = ''p'', min_threads = 0, max_threads = 4, max_queue_size = 2147483647,
              timeout = MonoDelta 500000000, pool_status = OK, num_threads = 1,
              active_threads = 0, queue = [], queue_size = 0,
              events = [ThreadCreate False OK, TraceAddRef 3, NotifyOne_not_empty,
                        AdoptTrace (Some 3), TraceRelease 3, RunnableRun 7, NotifyAll_idle]\<rparr>,
      workers = [\<lparr>permanent = False, place = Parked InTimedWait\<rparr>], stuck = False\<rparr>"

definition demo_reaped :: "nat sys" where
  "demo_reaped =
     \<lparr>pool = \<lparr>name = ''p'', min_threads = 0, max_threads = 4, max_queue_size = 2147483647,
              timeout = MonoDelta 500000000, pool_status = OK, num_threads = 0,
              active_threads = 0, queue = [], queue_size = 0,
              events = [ThreadCreate False OK, TraceAddRef 3, NotifyOne_not_empty,
                        AdoptTrace (Some 3), TraceRelease 3, RunnableRun 7, NotifyAll_idle,
                        VLog, NotifyAll_no_threads]\<rparr>,
      workers = [\<lparr>permanent = False, place = Parked Exited\<rparr>], stuck = False\<rparr>"

definition demo_down :: "nat sys" where
  "demo_down =
     \<lparr>pool = \<lparr>name = ''p'', min_threads = 0, max_threads = 4, max_queue_size = 2147483647,
              timeout = MonoDelta 500000000,
              pool_status = ServiceUnavailable ''The pool has been shut down.'', num_threads = 0,
              active_threads = 0, queue = [], queue_size = 0,
              events = [ThreadCreate False OK, TraceAddRef 3, NotifyOne_not_empty,
                        ThreadCreate False OK, TraceAddRef 3, NotifyOne_not_empty,
                        TraceRelease 3, TraceRelease 3, NotifyAll_not_empty,
                        VLog, VLog, NotifyAll_no_threads]\<rparr>,
      workers = [\<lparr>permanent = False, place = Parked Exited\<rparr>,
                 \<lparr>permanent = False, place = Parked Exited\<rparr>], stuck = False\<rparr>"

definition demo_refused :: "nat sys" where
  "demo_refused =
     \<lparr>pool = \<lparr>name = ''p'', min_threads = 0, max_threads = 4, max_queue_size = 2147483647,
              timeout = MonoDelta 500000000, pool_status = OK, num_threads = 0,
              active_threads = 0, queue = [], queue_size = 0,
              events = [ThreadCreate False (RuntimeError ''Could not create thread'')]\<rparr>,
      workers = [], stuck = False\<rparr>"

definition demo_permanent :: "nat sys" where
  "demo_permanent = sys_new ((ThreadPoolBuilder_new 4 ''q'')\<lparr>b_min_threads := 1\<rparr>)"

definition demo_permanent_down :: "nat sys" where
  "demo_permanent_down =
     \<lparr>pool = \<lparr>name = ''q'', min_threads = 1, max_threads = 4, max_queue_size = 2147483647,
              timeout = MonoDelta 500000000,
              pool_status = ServiceUnavailable ''The pool has been shut down.'', num_threads = 1,
              active_threads = 0, queue = [], queue_size = 0,
              events = [ThreadCreate True OK, NotifyAll_not_empty]\<rparr>,
      workers = [\<lparr>permanent = True, place = Parked InWait\<rparr>], stuck = False\<rparr>"

definition demo_permanent_gone :: "nat sys" where
  "demo_permanent_gone =
     \<lparr>pool = \<lparr>name = ''q'', min_threads = 1, max_threads = 4, max_queue_size = 2147483647,
              timeout = MonoDelta 500000000,
              pool_status = ServiceUnavailable ''The pool has been shut down.'', num_threads = 0,
              active_threads = 0, queue = [], queue_size = 0,
              events = [ThreadCreate True OK, NotifyAll_not_empty, VLog, NotifyAll_no_threads]\<rparr>,
      workers = [\<lparr>permanent = True, place = Parked Exited\<rparr>], stuck = False\<rparr>"

section \<open>Executor, pool and futures together\<close>

text \<open>
  The objects that a pool refers to: the runnables of the queued entries and of the
  entries that workers have taken and are still running.
\<close>

fun held :: "'r worker \<Rightarrow> 'r list" where
  "held wk = (case place wk of Parked (Unlocked e) \<Rightarrow> [runnable e] | _ \<Rightarrow> [])"

definition referenced :: "'r sys \<Rightarrow> 'r set" where
  "referenced s = set (map runnable (queue (pool s)) @ concat (map held (workers s)))"

text \<open>The runnable that an action hands to the pool, if any.\<close>

fun submitted :: "'r action \<Rightarrow> 'r set" where
  "submitted (DoSubmit r cur cr) = {r}"
| "submitted _ = {}"

text \<open>
  The executor with its pool, the workers of the pool and the \<^verbatim>\<open>FutureTask\<close>
  objects in one state. A worker that has taken an entry calls
  \<^verbatim>\<open>entry.runnable->Run()\<close> before it locks again; \<open>progress\<close> says how far
  each worker is in that call, in the parts of \<^verbatim>\<open>Run\<close> defined above.
\<close>

datatype run_pc = RunNotStarted | RunTaskCalled | RunTaskReturned | RunMarked | RunReturned

record ('l, 't) world =
  psys :: "addr sys"
  objs :: "addr \<rightharpoonup> ('l, 't) FutureTask"
  next_obj :: addr
  progress :: "nat \<Rightarrow> run_pc"

definition executor_of :: "('l, 't) world \<Rightarrow> ('l, 't) TaskExecutor" where
  "executor_of w = \<lparr> thread_pool = pool (psys w), store = objs w, next_addr = next_obj w \<rparr>"

definition world_new :: "ThreadPoolBuilder \<Rightarrow> ('l, 't) world" where
  "world_new b = \<lparr> psys = sys_new b, objs = Map.empty, next_obj = 0, progress = (\<lambda>i. RunNotStarted) \<rparr>"

text \<open>
  One step of the whole, for tasks that behave as \<open>T\<close> says:
  \<^item> \<^verbatim>\<open>TaskExecutor::Submit\<close>, which allocates the future and submits it;
  \<^item> \<^verbatim>\<open>SubmitFutureTask\<close> of an existing object, unless the object is in \<open>X\<close>
    (the set of objects of which no caller holds a \<^verbatim>\<open>FutureTask\<close> pointer);
  \<^item> \<^verbatim>\<open>Init\<close>, \<^verbatim>\<open>Shutdown\<close> and the critical sections of the workers;
  \<^item> the parts of \<^verbatim>\<open>Run\<close>, in their order, on the object of the entry that a
    worker has taken, and then the end of the worker's unlocked part;
  \<^item> \<^verbatim>\<open>Abort\<close> and \<^verbatim>\<open>AddListener\<close>, by any thread, on any object, at any
    moment.
\<close>

inductive world_step :: "'t Task \<Rightarrow> addr set \<Rightarrow> ('l, 't) world \<Rightarrow> ('l, 't) world \<Rightarrow> bool"
  for T :: "'t Task" and X :: "addr set" where
  ws_submit:
    "TaskExecutor_Submit dchecks t future cur cr (executor_of w) = Inr (st, future', ex') \<Longrightarrow>
     sys_step (DoSubmit (next_obj w) cur cr) (psys w) = Some (Inr s') \<Longrightarrow>
     world_step T X w (w\<lparr>psys := s', objs := store ex', next_obj := next_addr ex'\<rparr>)"
| ws_resubmit:
    "a < next_obj w \<Longrightarrow> a \<notin> X \<Longrightarrow>
     SubmitFutureTask a cur cr (executor_of w) = (st, ex') \<Longrightarrow>
     sys_step (DoSubmit a cur cr) (psys w) = Some (Inr s') \<Longrightarrow>
     world_step T X w (w\<lparr>psys := s'\<rparr>)"
| ws_init:
    "sys_step (DoInit cr) (psys w) = Some (Inr s') \<Longrightarrow> world_step T X w (w\<lparr>psys := s'\<rparr>)"
| ws_shutdown:
    "sys_step DoShutdown (psys w) = Some (Inr s') \<Longrightarrow> world_step T X w (w\<lparr>psys := s'\<rparr>)"
| ws_worker_locks:
    "sys_step (WorkerLocks i wr) (psys w) = Some (Inr s') \<Longrightarrow> world_step T X w (w\<lparr>psys := s'\<rparr>)"
| ws_run_begin:
    "i < length (workers (psys w)) \<Longrightarrow> place (workers (psys w) ! i) = Parked (Unlocked e) \<Longrightarrow>
     progress w i = RunNotStarted \<Longrightarrow> objs w (runnable e) = Some ft \<Longrightarrow>
     world_step T X w
       (w\<lparr>objs := (objs w)(runnable e \<mapsto> snd (Run_begin ft)),
          progress := (progress w)(i := if fst (Run_begin ft) then RunReturned else RunTaskCalled)\<rparr>)"
| ws_run_task:
    "i < length (workers (psys w)) \<Longrightarrow> place (workers (psys w) ! i) = Parked (Unlocked e) \<Longrightarrow>
     progress w i = RunTaskCalled \<Longrightarrow> objs w (runnable e) = Some ft \<Longrightarrow>
     world_step T X w
       (w\<lparr>objs := (objs w)(runnable e \<mapsto> Run_task T ft),
          progress := (progress w)(i := RunTaskReturned)\<rparr>)"
| ws_run_mark:
    "i < length (workers (psys w)) \<Longrightarrow> place (workers (psys w) ! i) = Parked (Unlocked e) \<Longrightarrow>
     progress w i = RunTaskReturned \<Longrightarrow> objs w (runnable e) = Some ft \<Longrightarrow>
     world_step T X w
       (w\<lparr>objs := (objs w)(runnable e \<mapsto> Run_mark_finished ft),
          progress := (progress w)(i := RunMarked)\<rparr>)"
| ws_run_notify:
    "i < length (workers (psys w)) \<Longrightarrow> place (workers (psys w) ! i) = Parked (Unlocked e) \<Longrightarrow>
     progress w i = RunMarked \<Longrightarrow> objs w (runnable e) = Some ft \<Longrightarrow>
     world_step T X w
       (w\<lparr>objs := (objs w)(runnable e \<mapsto> Run_notify ft),
          progress := (progress w)(i := RunReturned)\<rparr>)"
| ws_run_end:
    "progress w i = RunReturned \<Longrightarrow> sys_step (WorkerRuns i) (psys w) = Some (Inr s') \<Longrightarrow>
     world_step T X w (w\<lparr>psys := s', progress := (progress w)(i := RunNotStarted)\<rparr>)"
| ws_abort:
    "objs w a = Some ft \<Longrightarrow> world_step T X w (w\<lparr>objs := (objs w)(a \<mapsto> snd (Abort T ft))\<rparr>)"
| ws_add_listener:
    "objs w a = Some ft \<Longrightarrow> world_step T X w (w\<lparr>objs := (objs w)(a \<mapsto> AddListener l ft)\<rparr>)"

inductive world_run :: "'t Task \<Rightarrow> addr set \<Rightarrow> ('l, 't) world \<Rightarrow> ('l, 't) world \<Rightarrow> bool"
  for T :: "'t Task" and X :: "addr set" where
  world_run_refl: "world_run T X w w"
| world_run_step: "world_run T X w w' \<Longrightarrow> world_step T X w' w'' \<Longrightarrow> world_run T X w w''"

inductive world_reachable :: "'t Task \<Rightarrow> ('l, 't) world \<Rightarrow> bool" for T :: "'t Task" where
  world_reachable_new: "built b \<Longrightarrow> world_reachable T (world_new b)"
| world_reachable_step: "world_reachable T w \<Longrightarrow> world_step T {} w w' \<Longrightarrow> world_reachable T w'"

text \<open>
  An executor on a new pool: a submission is rejected, then the caller aborts the future it
  was given and adds a listener.
\<close>

definition demo_world :: "(nat, unit) world" where
  "demo_world = world_new (ThreadPoolBuilder_new 4 ''p'')"

definition demo_world_rejected :: "(nat, unit) world" where
  "demo_world_rejected =
     demo_world\<lparr>psys := psys demo_world, objs := [0 \<mapsto> FutureTask_new ()], next_obj := 1\<rparr>"

definition demo_world_aborted :: "(nat, unit) world" where
  "demo_world_aborted =
     demo_world_rejected\<lparr>objs := (objs demo_world_rejected)(0 \<mapsto> snd (Abort abortable (FutureTask_new ())))\<rparr>"

definition demo_world_listening :: "(nat, unit) world" where
  "demo_world_listening =
     demo_world_aborted\<lparr>objs := (objs demo_world_aborted)
        (0 \<mapsto> AddListener 2 (snd (Abort abortable (FutureTask_new ()))))\<rparr>"

section \<open>Builder options\<close>

lemma built_bounds:
  "built b \<Longrightarrow> 0 \<le> b_min_threads b \<and> 1 \<le> b_max_threads b \<and> 1 \<le> b_max_queue_size b"
  by (induction rule: built.induct)
     (auto simp: ThreadPoolBuilder_new_def INT_MAX_def set_min_threads_def set_max_threads_def
        set_max_queue_size_def set_timeout_def split: if_splits)

text \<open>
  C8 (as the spec states it): every builder option, \<open>idle_timeout\<close> included, is
  validated when it is set. The setter of the timeout has no check: a negative timeout
  is stored.
\<close>

theorem C8_timeout_counterexample:
  "set_timeout (FromMilliseconds (- 5)) (ThreadPoolBuilder_new 4 ''pool'')
     = Inr ((ThreadPoolBuilder_new 4 ''pool'')\<lparr>b_timeout := MonoDelta (- 5000000)\<rparr>)
   \<and> nanos (MonoDelta (- 5000000)) < 0"
  by (simp add: set_timeout_def FromMilliseconds_def)

text \<open>
  C8 (amended): \<open>min_threads\<close>, \<open>max_threads\<close> and \<open>max_queue_size\<close> are validated
  when they are set: the setter passes exactly when the value is at least 0, 1 and 1
  respectively, and then stores the value and nothing else; otherwise its
  \<^verbatim>\<open>CHECK\<close> fails. The timeout setter stores any duration. The defaults are
  \<open>min_threads = 0\<close>, \<open>max_threads\<close> the number of CPUs,
  \<open>max_queue_size = INT_MAX\<close> and a timeout of 500 ms.
\<close>

theorem C8_builder_validation:
  "((\<exists>b'. set_min_threads n b = Inr b') \<longleftrightarrow> 0 \<le> n)
   \<and> ((\<exists>b'. set_max_threads n b = Inr b') \<longleftrightarrow> 1 \<le> n)
   \<and> ((\<exists>b'. set_max_queue_size n b = Inr b') \<longleftrightarrow> 1 \<le> n)
   \<and> (\<forall>t. set_timeout t b = Inr (b\<lparr>b_timeout := t\<rparr>))
   \<and> (set_min_threads n b = Inr b' \<longrightarrow> b' = b\<lparr>b_min_threads := n\<rparr>)
   \<and> (set_max_threads n b = Inr b' \<longrightarrow> b' = b\<lparr>b_max_threads := n\<rparr>)
   \<and> (set_max_queue_size n b = Inr b' \<longrightarrow> b' = b\<lparr>b_max_queue_size := n\<rparr>)
   \<and> b_min_threads (ThreadPoolBuilder_new NumCPUs nm) = 0
   \<and> b_max_threads (ThreadPoolBuilder_new NumCPUs nm) = NumCPUs
   \<and> b_max_queue_size (ThreadPoolBuilder_new NumCPUs nm) = 2 ^ 31 - 1
   \<and> nanos (b_timeout (ThreadPoolBuilder_new NumCPUs nm)) = 500 * 1000000"
  by (auto simp: ThreadPoolBuilder_new_def INT_MAX_def set_min_threads_def set_max_threads_def
        set_max_queue_size_def set_timeout_def FromMilliseconds_def split: if_splits)

theorem C8_builder_validation_witness:
  "set_min_threads 2 (ThreadPoolBuilder_new 4 ''p'') = Inr \<lparr>b_name = ''p'', b_min_threads = 2,
      b_max_threads = 4, b_max_queue_size = 2147483647, b_timeout = MonoDelta 500000000\<rparr>
   \<and> set_max_threads 3 (ThreadPoolBuilder_new 4 ''p'') = Inr \<lparr>b_name = ''p'', b_min_threads = 0,
      b_max_threads = 3, b_max_queue_size = 2147483647, b_timeout = MonoDelta 500000000\<rparr>
   \<and> set_max_queue_size 7 (ThreadPoolBuilder_new 4 ''p'') = Inr \<lparr>b_name = ''p'', b_min_threads = 0,
      b_max_threads = 4, b_max_queue_size = 7, b_timeout = MonoDelta 500000000\<rparr>"
proof -
  let ?b = "ThreadPoolBuilder_new 4 ''p''"
  have b: "?b = \<lparr>b_name = ''p'', b_min_threads = 0, b_max_threads = 4,
      b_max_queue_size = 2147483647, b_timeout = MonoDelta 500000000\<rparr>"
    by (simp add: ThreadPoolBuilder_new_def INT_MAX_def FromMilliseconds_def)
  have "\<exists>b1. set_min_threads 2 ?b = Inr b1"
    using C8_builder_validation [of 2 ?b ?b 0 "[]"] by simp
  then obtain b1 where h1: "set_min_threads 2 ?b = Inr b1" ..
  have "\<exists>b2. set_max_threads 3 ?b = Inr b2"
    using C8_builder_validation [of 3 ?b ?b 0 "[]"] by simp
  then obtain b2 where h2: "set_max_threads 3 ?b = Inr b2" ..
  have "\<exists>b3. set_max_queue_size 7 ?b = Inr b3"
    using C8_builder_validation [of 7 ?b ?b 0 "[]"] by simp
  then obtain b3 where h3: "set_max_queue_size 7 ?b = Inr b3" ..
  have "b1 = ?b\<lparr>b_min_threads := 2\<rparr>"
    using C8_builder_validation [of 2 ?b b1 0 "[]"] h1 by blast
  moreover have "b2 = ?b\<lparr>b_max_threads := 3\<rparr>"
    using C8_builder_validation [of 3 ?b b2 0 "[]"] h2 by blast
  moreover have "b3 = ?b\<lparr>b_max_queue_size := 7\<rparr>"
    using C8_builder_validation [of 7 ?b b3 0 "[]"] h3 by blast
  ultimately show ?thesis
    using h1 h2 h3 by (simp add: b)
qed

section \<open>FutureTask: state machine and listeners\<close>

lemma fired_append: "fired (xs @ ys) = fired xs @ fired ys"
  by (induction xs rule: fired.induct) auto

lemma fired_map_OnSuccess: "fired (map OnSuccess ls) = ls"
  by (induction ls) auto

lemma fired_map_OnFailure: "fired (map (\<lambda>l. OnFailure l s) ls) = ls"
  by (induction ls) auto

lemma run_aborted:
  "state ft = kTaskAbortedState \<Longrightarrow>
     Run T ft = ft\<lparr>latch := latch ft - 1,
                  calls := calls ft
                    @ map (\<lambda>l. OnFailure l (Aborted ''Task was aborted before it ran'')) (listeners ft)
                    @ [CountDown]\<rparr>"
  by (simp add: Run_def Run_begin_def set_state_def Let_def latch_CountDown_def call_def)

lemma run_notify_calls:
  "calls (Run_notify ft) = calls ft
     @ (if ok (status ft) then map OnSuccess (listeners ft)
        else map (\<lambda>l. OnFailure l (status ft)) (listeners ft))
     @ [CountDown]"
  by (simp add: Run_notify_def Let_def latch_CountDown_def call_def)

lemma run_not_aborted:
  "state ft \<noteq> kTaskAbortedState \<Longrightarrow>
     calls (Run T ft) = calls ft @ [TaskRun]
        @ (if ok (fst (Task_Run T (task ft))) then map OnSuccess (listeners ft)
           else map (\<lambda>l. OnFailure l (fst (Task_Run T (task ft)))) (listeners ft))
        @ [CountDown]
     \<and> status (Run T ft) = fst (Task_Run T (task ft))
     \<and> state (Run T ft) = kTaskFinishedState
     \<and> latch (Run T ft) = latch ft - 1"
  by (simp add: Run_def Run_begin_def Run_task_def Run_finish_def Run_mark_finished_def
       Run_notify_def set_state_def Let_def
       latch_CountDown_def call_def split: prod.splits)

text \<open>
  C3: \<^verbatim>\<open>Abort\<close> returns true exactly when the state is not Finished and the
  task's own \<^verbatim>\<open>Abort\<close> returns true, and then the state is Aborted (otherwise
  the state is as before). In state Aborted every \<^verbatim>\<open>set_state\<close>, and every
  sequence of them, returns false and changes nothing, and \<^verbatim>\<open>Abort\<close>,
  \<^verbatim>\<open>AddListener\<close> and \<^verbatim>\<open>Run\<close> leave the state Aborted too.
\<close>

theorem C3_abort:
  "(fst (Abort T ft) \<longleftrightarrow> state ft \<noteq> kTaskFinishedState \<and> fst (Task_Abort T (task ft)))
   \<and> (fst (Abort T ft) \<longrightarrow> state (snd (Abort T ft)) = kTaskAbortedState)
   \<and> (\<not> fst (Abort T ft) \<longrightarrow> state (snd (Abort T ft)) = state ft)
   \<and> (state ft = kTaskAbortedState \<longrightarrow>
        (\<forall>st. set_state st ft = (False, ft))
        \<and> fold (\<lambda>st f. snd (set_state st f)) sts ft = ft
        \<and> state (snd (Abort T ft)) = kTaskAbortedState
        \<and> state (AddListener l ft) = kTaskAbortedState
        \<and> state (Run T ft) = kTaskAbortedState)"
proof -
  have a: "fst (Abort T ft) \<longleftrightarrow> state ft \<noteq> kTaskFinishedState \<and> fst (Task_Abort T (task ft))"
    by (simp add: Abort_def Let_def split: prod.splits)
  have b: "fst (Abort T ft) \<longrightarrow> state (snd (Abort T ft)) = kTaskAbortedState"
    by (simp add: Abort_def Let_def call_def split: prod.splits)
  have c: "\<not> fst (Abort T ft) \<longrightarrow> state (snd (Abort T ft)) = state ft"
    by (simp add: Abort_def Let_def call_def split: prod.splits)
  have d: "state ft = kTaskAbortedState \<longrightarrow>
        (\<forall>st. set_state st ft = (False, ft))
        \<and> fold (\<lambda>st f. snd (set_state st f)) sts ft = ft
        \<and> state (snd (Abort T ft)) = kTaskAbortedState
        \<and> state (AddListener l ft) = kTaskAbortedState
        \<and> state (Run T ft) = kTaskAbortedState"
  proof
    assume ab: "state ft = kTaskAbortedState"
    have 1: "\<forall>st. set_state st ft = (False, ft)"
      using ab by (simp add: set_state_def)
    have 2: "fold (\<lambda>st f. snd (set_state st f)) sts ft = ft"
      using 1 by (induction sts) auto
    have 3: "state (snd (Abort T ft)) = kTaskAbortedState"
      using ab by (simp add: Abort_def Let_def call_def split: prod.splits)
    have 4: "state (AddListener l ft) = kTaskAbortedState"
      using ab by (simp add: AddListener_def call_def)
    have 5: "state (Run T ft) = kTaskAbortedState"
      using ab by (simp add: Run_def Run_begin_def set_state_def Let_def latch_CountDown_def call_def)
    from 1 2 3 4 5 show "(\<forall>st. set_state st ft = (False, ft))
        \<and> fold (\<lambda>st f. snd (set_state st f)) sts ft = ft
        \<and> state (snd (Abort T ft)) = kTaskAbortedState
        \<and> state (AddListener l ft) = kTaskAbortedState
        \<and> state (Run T ft) = kTaskAbortedState" by blast
  qed
  from a b c d show ?thesis by blast
qed

theorem C3_abort_witness:
  "fst (Abort abortable (FutureTask_new () :: (nat, unit) FutureTask))
   \<and> state (snd (Abort abortable (FutureTask_new () :: (nat, unit) FutureTask))) = kTaskAbortedState
   \<and> set_state kTaskRunningState (snd (Abort abortable (FutureTask_new () :: (nat, unit) FutureTask)))
       = (False, snd (Abort abortable (FutureTask_new ())))
   \<and> \<not> fst (Abort not_abortable (FutureTask_new () :: (nat, unit) FutureTask))
   \<and> state (snd (Abort not_abortable (FutureTask_new () :: (nat, unit) FutureTask)))
       = kTaskPendingState"
proof -
  let ?ft = "FutureTask_new () :: (nat, unit) FutureTask"
  have 1: "state ?ft \<noteq> kTaskFinishedState \<and> fst (Task_Abort abortable (task ?ft))"
    by (simp add: FutureTask_new_def abortable_def)
  have 2: "fst (Abort abortable ?ft)"
    using 1 C3_abort [of abortable ?ft "[]" 0] by blast
  have 3: "state (snd (Abort abortable ?ft)) = kTaskAbortedState"
    using 2 C3_abort [of abortable ?ft "[]" 0] by blast
  have 4: "set_state kTaskRunningState (snd (Abort abortable ?ft)) = (False, snd (Abort abortable ?ft))"
    using 3 C3_abort [of abortable "snd (Abort abortable ?ft)" "[]" 0] by blast
  have 5: "\<not> fst (Task_Abort not_abortable (task ?ft))" and 6: "state ?ft = kTaskPendingState"
    by (simp_all add: FutureTask_new_def not_abortable_def)
  have 7: "\<not> fst (Abort not_abortable ?ft)"
    using 5 C3_abort [of not_abortable ?ft "[]" 0] by blast
  have 8: "state (snd (Abort not_abortable ?ft)) = kTaskPendingState"
    using 6 7 C3_abort [of not_abortable ?ft "[]" 0] by simp
  from 2 3 4 7 8 show ?thesis by blast
qed

text \<open>
  C4: \<^verbatim>\<open>Run\<close> on an aborted task leaves the task object, the state and the
  cached status as they are, calls \<^verbatim>\<open>OnFailure\<close> with the status
  ``Task was aborted before it ran'' on every registered listener in order and then
  counts the latch down. On every path of \<^verbatim>\<open>Run\<close> (and of its last part
  \<open>Run_notify\<close>, whatever other threads did to the object before) the latch is counted
  down once, as the very last call, after each registered listener has been called.
\<close>

theorem C4_run_aborted:
  "(state ft = kTaskAbortedState \<longrightarrow>
      Run T ft = ft\<lparr>latch := latch ft - 1,
                   calls := calls ft
                     @ map (\<lambda>l. OnFailure l (Aborted ''Task was aborted before it ran'')) (listeners ft)
                     @ [CountDown]\<rparr>)
   \<and> (\<exists>cs. calls (Run T ft) = calls ft @ cs @ [CountDown] \<and> CountDown \<notin> set cs
          \<and> fired cs = listeners ft \<and> (state ft = kTaskAbortedState \<longrightarrow> TaskRun \<notin> set cs))
   \<and> (\<exists>cs. calls (Run_notify ft) = calls ft @ cs @ [CountDown] \<and> CountDown \<notin> set cs
          \<and> fired cs = listeners ft)
   \<and> latch (Run T ft) = latch ft - 1"
proof -
  have a: "state ft = kTaskAbortedState \<longrightarrow>
      Run T ft = ft\<lparr>latch := latch ft - 1,
                   calls := calls ft
                     @ map (\<lambda>l. OnFailure l (Aborted ''Task was aborted before it ran'')) (listeners ft)
                     @ [CountDown]\<rparr>"
    using run_aborted by blast
  have b: "\<exists>cs. calls (Run T ft) = calls ft @ cs @ [CountDown] \<and> CountDown \<notin> set cs
          \<and> fired cs = listeners ft \<and> (state ft = kTaskAbortedState \<longrightarrow> TaskRun \<notin> set cs)"
  proof (cases "state ft = kTaskAbortedState")
    case True
    let ?cs = "map (\<lambda>l. OnFailure l (Aborted ''Task was aborted before it ran'')) (listeners ft)"
    have "calls (Run T ft) = calls ft @ ?cs @ [CountDown]"
      using True by (simp add: run_aborted)
    moreover have "CountDown \<notin> set ?cs" "TaskRun \<notin> set ?cs" by auto
    moreover have "fired ?cs = listeners ft" by (rule fired_map_OnFailure)
    ultimately show ?thesis by blast
  next
    case False
    let ?s = "fst (Task_Run T (task ft))"
    let ?cs = "[TaskRun] @ (if ok ?s then map OnSuccess (listeners ft)
           else map (\<lambda>l. OnFailure l ?s) (listeners ft))"
    have "calls (Run T ft) = calls ft @ ?cs @ [CountDown]"
      using run_not_aborted [OF False, of T] by simp
    moreover have "CountDown \<notin> set ?cs" by auto
    moreover have "fired ?cs = listeners ft"
      by (simp add: fired_map_OnFailure fired_map_OnSuccess)
    ultimately show ?thesis using False by blast
  qed
  have c: "\<exists>cs. calls (Run_notify ft) = calls ft @ cs @ [CountDown] \<and> CountDown \<notin> set cs
          \<and> fired cs = listeners ft"
  proof -
    let ?cs = "(if ok (status ft) then map OnSuccess (listeners ft)
        else map (\<lambda>l. OnFailure l (status ft)) (listeners ft))"
    have "calls (Run_notify ft) = calls ft @ ?cs @ [CountDown]"
      by (rule run_notify_calls)
    moreover have "CountDown \<notin> set ?cs" by auto
    moreover have "fired ?cs = listeners ft"
      by (simp add: fired_map_OnFailure fired_map_OnSuccess)
    ultimately show ?thesis by blast
  qed
  have d: "latch (Run T ft) = latch ft - 1"
    by (cases "state ft = kTaskAbortedState") (simp_all add: run_aborted run_not_aborted)
  from a b c d show ?thesis by blast
qed

theorem C4_run_aborted_witness:
  "state (snd (Abort abortable (AddListener (7::nat) (FutureTask_new ())))) = kTaskAbortedState
   \<and> Run abortable (snd (Abort abortable (AddListener (7::nat) (FutureTask_new ()))))
      = \<lparr> state = kTaskAbortedState, status = OK, task = (), listeners = [7], latch = 0,
          calls = [TaskAbort, OnFailure 7 (Aborted ''Task was aborted before it ran''), CountDown] \<rparr>"
proof -
  let ?ft = "snd (Abort abortable (AddListener (7::nat) (FutureTask_new ())))"
  have e: "?ft = \<lparr> state = kTaskAbortedState, status = OK, task = (), listeners = [7], latch = 1,
          calls = [TaskAbort] \<rparr>"
    by (simp add: Abort_def AddListener_def FutureTask_new_def abortable_def call_def)
  have h: "state ?ft = kTaskAbortedState" by (simp add: e)
  show ?thesis
    using h C4_run_aborted [of ?ft abortable] by (simp add: e)
qed

lemma listener_after_abort_any_default:
  "Run abortable (AddListener 2 (snd (Abort abortable
       (AddListener (1::nat) ((FutureTask_new ())\<lparr>status := d\<rparr>)))))
     = \<lparr> state = kTaskAbortedState, status = d, task = (), listeners = [1], latch = 0,
         calls = [TaskAbort, if ok d then OnSuccess 2 else OnFailure 2 d,
                  OnFailure 1 (Aborted ''Task was aborted before it ran''), CountDown] \<rparr>"
  by (simp add: Run_def Run_begin_def set_state_def Abort_def AddListener_def FutureTask_new_def
        abortable_def call_def latch_CountDown_def)

text \<open>
  C2 (the code at the failing input): a task that accepts abortion gets listener 1,
  is aborted, gets listener 2 and is then run by the pool. Listener 2 is told
  \<^verbatim>\<open>OnSuccess\<close> at registration, before listener 1 hears anything; listener 1 is
  told \<^verbatim>\<open>OnFailure\<close>; the cached status is OK throughout.
\<close>

theorem C2_listener_after_abort:
  "fst (Abort abortable (AddListener (1::nat) (FutureTask_new ())))
   \<and> Run abortable (AddListener 2 (snd (Abort abortable (AddListener (1::nat) (FutureTask_new ())))))
      = \<lparr> state = kTaskAbortedState, status = OK, task = (), listeners = [1], latch = 0,
          calls = [TaskAbort, OnSuccess 2,
                   OnFailure 1 (Aborted ''Task was aborted before it ran''), CountDown] \<rparr>"
  by (simp add: Run_def Run_begin_def set_state_def Abort_def AddListener_def FutureTask_new_def
        abortable_def call_def latch_CountDown_def)

section \<open>ThreadPool: a rejected submission changes nothing\<close>

lemma Submit_rejected_unchanged:
  "Submit r cur cr p = (st, p') \<Longrightarrow> \<not> ok st \<Longrightarrow>
     queue p' = queue p \<and> queue_size p' = queue_size p \<and> num_threads p' = num_threads p
     \<and> active_threads p' = active_threads p \<and> pool_status p' = pool_status p"
  by (auto simp: Submit_def CreateThreadUnlocked_def Let_def emit_def split: if_splits)

section \<open>ThreadPool: what each critical section changes\<close>

lemma how_many_Nil [simp]: "how_many P [] = 0"
  by (simp add: how_many_def)

lemma how_many_Cons [simp]: "how_many P (x # xs) = (if P x then 1 else 0) + how_many P xs"
  by (simp add: how_many_def)

lemma how_many_append [simp]: "how_many P (xs @ ys) = how_many P xs + how_many P ys"
  by (simp add: how_many_def)

lemma how_many_nonneg: "0 \<le> how_many P xs"
  by (simp add: how_many_def)

lemma how_many_update:
  "i < length xs \<Longrightarrow>
     how_many P (xs[i := x]) = how_many P xs - (if P (xs ! i) then 1 else 0) + (if P x then 1 else 0)"
proof (induction xs arbitrary: i)
  case Nil
  then show ?case by simp
next
  case (Cons a xs)
  then show ?case by (cases i) auto
qed

lemma how_many_mono: "(\<And>x. x \<in> set xs \<Longrightarrow> P x \<Longrightarrow> Q x) \<Longrightarrow> how_many P xs \<le> how_many Q xs"
  by (induction xs) auto

lemma how_many_zero_iff: "how_many P xs = 0 \<longleftrightarrow> (\<forall>x\<in>set xs. \<not> P x)"
  by (simp add: how_many_def filter_empty_conv)

lemma list_all_update:
  "list_all P xs \<Longrightarrow> P x \<Longrightarrow> list_all P (xs[i := x])"
  by (auto simp: list_all_iff dest: set_update_subset_insert [THEN subsetD])

lemma new_events_append: "events p' = events p @ es \<Longrightarrow> new_events p p' = es"
  by (simp add: new_events_def)

lemma new_events_same [simp]: "new_events p p = []"
  by (simp add: new_events_def)

lemma how_many_absent: "x \<notin> set xs \<Longrightarrow> how_many (\<lambda>e. e = x) xs = 0"
  by (auto simp: how_many_zero_iff)

lemma Submit_frame:
  "Submit r cur cr p = (st, p') \<Longrightarrow>
     same_config p p' \<and> pool_status p' = pool_status p \<and> active_threads p' = active_threads p"
  by (auto simp: Submit_def CreateThreadUnlocked_def enqueue_def Let_def emit_def same_config_def
        split: if_splits option.splits)

lemma Submit_rejected:
  "Submit r cur cr p = (st, p') \<Longrightarrow> \<not> ok st \<Longrightarrow>
     queue p' = queue p \<and> queue_size p' = queue_size p \<and> num_threads p' = num_threads p
     \<and> (\<exists>es. events p' = events p @ es \<and> spawned es = [] \<and> no_trace_calls es)"
  by (auto simp: Submit_def CreateThreadUnlocked_def Let_def emit_def no_trace_calls_def
        split: if_splits)

lemma Submit_accepted:
  "Submit r cur cr p = (st, p') \<Longrightarrow> ok st \<Longrightarrow>
     st = OK \<and> ok (pool_status p) \<and> queue_size p \<noteq> max_queue_size p
     \<and> queue p' = queue p @ [\<lparr>runnable = r, trace = cur\<rparr>]
     \<and> queue_size p' = queue_size p + 1
     \<and> num_threads p' = num_threads p + (if spawn_wanted p \<and> ok cr then 1 else 0)
     \<and> (\<exists>es. events p' = events p @ es
           \<and> spawned es = (if spawn_wanted p \<and> ok cr
                            then [\<lparr>permanent = num_threads p < min_threads p, place = Created\<rparr>]
                            else [])
           \<and> (\<forall>t. how_many (\<lambda>e. e = TraceAddRef t) es = (if cur = Some t then 1 else 0))
           \<and> (\<forall>t. how_many (\<lambda>e. e = TraceRelease t) es = 0))"
  by (auto simp: Submit_def CreateThreadUnlocked_def enqueue_def Let_def emit_def spawn_wanted_def
        split: if_splits option.splits)

lemma release_traces_count:
  "how_many (\<lambda>e. e = TraceRelease t) (release_traces q) = how_many (\<lambda>e. trace e = Some t) q
   \<and> how_many (\<lambda>e. e = TraceAddRef t) (release_traces q) = 0
   \<and> spawned (release_traces q) = []"
  by (induction q) (auto split: option.splits)

lemma spawned_append: "spawned (xs @ ys) = spawned xs @ spawned ys"
  by (induction xs rule: spawned.induct) auto

lemma Shutdown_enter_effect:
  "same_config p (Shutdown_enter p)
   \<and> pool_status (Shutdown_enter p) = ServiceUnavailable ''The pool has been shut down.''
   \<and> queue (Shutdown_enter p) = [] \<and> queue_size (Shutdown_enter p) = 0
   \<and> num_threads (Shutdown_enter p) = num_threads p
   \<and> active_threads (Shutdown_enter p) = active_threads p
   \<and> events (Shutdown_enter p) = events p @ release_traces (queue p) @ [NotifyAll_not_empty]"
  by (simp add: Shutdown_enter_def ClearQueue_def emit_def same_config_def)

lemma unlocked_effect:
  "same_config p (DispatchThread_unlocked e p)
   \<and> pool_status (DispatchThread_unlocked e p) = pool_status p
   \<and> queue (DispatchThread_unlocked e p) = queue p
   \<and> queue_size (DispatchThread_unlocked e p) = queue_size p
   \<and> num_threads (DispatchThread_unlocked e p) = num_threads p
   \<and> active_threads (DispatchThread_unlocked e p) = active_threads p
   \<and> (\<exists>es. events (DispatchThread_unlocked e p) = events p @ es
         \<and> (\<forall>t. how_many (\<lambda>e. e = TraceAddRef t) es = 0)
         \<and> (\<forall>t. how_many (\<lambda>x. x = TraceRelease t) es = (if trace e = Some t then 1 else 0)))"
  by (auto simp: DispatchThread_unlocked_def emit_def same_config_def split: option.splits)

lemma Init_loop_effect:
  "Init_loop cr i n p = R \<Longrightarrow> num_threads p = i \<Longrightarrow> n = min_threads p \<Longrightarrow>
     (\<exists>p' es k. (R = InitReturned OK p' \<and> num_threads p' = max i n \<or> R = InitStuck p' \<and> num_threads p' < n)
        \<and> same_config p p' \<and> pool_status p' = pool_status p \<and> queue p' = queue p
        \<and> queue_size p' = queue_size p \<and> active_threads p' = active_threads p
        \<and> events p' = events p @ es \<and> no_trace_calls es
        \<and> spawned es = replicate k \<lparr>permanent = True, place = Created\<rparr>
        \<and> num_threads p' = num_threads p + int k)"
proof (induction cr i n p arbitrary: R rule: Init_loop.induct)
  case (1 cr i n p)
  show ?case
  proof (cases "i < n")
    case False
    then have "R = InitReturned OK p" using "1.prems" by simp
    then show ?thesis
      using False "1.prems"(2)
      by (auto simp: same_config_def no_trace_calls_def intro!: exI [of _ "[]"] exI [of _ 0])
  next
    case True
    obtain s p1 where c: "CreateThreadUnlocked (cr (nat i)) p = (s, p1)"
      by (cases "CreateThreadUnlocked (cr (nat i)) p") auto
    show ?thesis
    proof (cases "ok s")
      case False
      then have R: "R = InitStuck p1" using "1.prems" True c by simp
      have "p1 = emit [ThreadCreate True (cr (nat i))] p" and "s = cr (nat i)"
        using c False True "1.prems" by (auto simp: CreateThreadUnlocked_def Let_def split: if_splits)
      then show ?thesis
        using R False True "1.prems"
        by (auto simp: same_config_def no_trace_calls_def emit_def
              intro!: exI [of _ "[ThreadCreate True (cr (nat i))]"] exI [of _ 0])
    next
      case ok: True
      then have R: "Init_loop cr (i + 1) n p1 = R" using "1.prems" True c by simp
      have p1: "p1 = (emit [ThreadCreate True (cr (nat i))] p)\<lparr>num_threads := num_threads p + 1\<rparr>"
        and s: "s = cr (nat i)"
        using c ok True "1.prems"
        by (auto simp: CreateThreadUnlocked_def Let_def emit_def split: if_splits)
      have n1: "num_threads p1 = i + 1" and m1: "n = min_threads p1"
        using p1 "1.prems" by (simp_all add: emit_def)
      from "1.IH" [OF True c [symmetric] _ R n1 m1] ok
      obtain p' es k where h:
        "R = InitReturned OK p' \<and> num_threads p' = max (i + 1) n \<or> R = InitStuck p' \<and> num_threads p' < n"
        "same_config p1 p'" "pool_status p' = pool_status p1" "queue p' = queue p1"
        "queue_size p' = queue_size p1" "active_threads p' = active_threads p1"
        "events p' = events p1 @ es" "no_trace_calls es"
        "spawned es = replicate k \<lparr>permanent = True, place = Created\<rparr>"
        "num_threads p' = num_threads p1 + int k"
        by auto
      let ?es = "ThreadCreate True (cr (nat i)) # es"
      have "events p' = events p @ ?es" using h p1 by (simp add: emit_def)
      moreover have "no_trace_calls ?es" using h by (simp add: no_trace_calls_def)
      moreover have "spawned ?es = replicate (Suc k) \<lparr>permanent = True, place = Created\<rparr>"
        using h ok s by simp
      moreover have "num_threads p' = num_threads p + int (Suc k)" using h p1 by (simp add: emit_def)
      moreover have "same_config p p'" "pool_status p' = pool_status p" "queue p' = queue p"
        "queue_size p' = queue_size p" "active_threads p' = active_threads p"
        using h p1 by (simp_all add: emit_def same_config_def)
      moreover have "R = InitReturned OK p' \<and> num_threads p' = max i n \<or> R = InitStuck p' \<and> num_threads p' < n"
        using h(1) True by auto
      ultimately show ?thesis by blast
    qed
  qed
qed

lemma exit_effect:
  "DispatchThread_exit p = Inr p' \<Longrightarrow>
     same_config p p' \<and> pool_status p' = pool_status p \<and> queue p' = queue p
     \<and> queue_size p' = queue_size p \<and> active_threads p' = active_threads p
     \<and> num_threads p' = num_threads p - 1
     \<and> (\<exists>es. events p' = events p @ es \<and> set es \<subseteq> notices)"
  by (auto simp: DispatchThread_exit_def Let_def emit_def same_config_def notices_def split: if_splits)

lemma exit_fails:
  "DispatchThread_exit p = Inl f \<Longrightarrow> num_threads p = 1 \<and> queue p \<noteq> []"
  by (auto simp: DispatchThread_exit_def Let_def emit_def split: if_splits)

lemma top_effect:
  "DispatchThread_top perm p = Inr (y, p') \<Longrightarrow>
     same_config p p' \<and> pool_status p' = pool_status p
     \<and> num_threads p' = num_threads p - (if y = Exited then 1 else 0)
     \<and> active_threads p' = active_threads p + (if took y then 1 else 0)
     \<and> queue p = (case y of Unlocked e \<Rightarrow> e # queue p' | _ \<Rightarrow> queue p')
     \<and> queue_size p' = queue_size p - (if took y then 1 else 0)
     \<and> (\<exists>es. events p' = events p @ es \<and> set es \<subseteq> notices)
     \<and> (y = Exited \<longrightarrow> \<not> ok (pool_status p))
     \<and> (y \<noteq> Exited \<longrightarrow> ok (pool_status p))
     \<and> (y = InWait \<longrightarrow> perm \<and> queue p = [])
     \<and> (y = InTimedWait \<longrightarrow> \<not> perm \<and> queue p = [])"
proof (cases "ok (pool_status p)")
  case False
  assume a: "DispatchThread_top perm p = Inr (y, p')"
  then obtain q where q: "DispatchThread_exit (emit [VLog] p) = Inr q" and y: "y = Exited" and p': "p' = q"
    using False by (cases "DispatchThread_exit (emit [VLog] p)") (auto simp: DispatchThread_top_def)
  from exit_effect [OF q] show ?thesis
    using y p' False by (auto simp: emit_def same_config_def notices_def)
next
  case True
  assume a: "DispatchThread_top perm p = Inr (y, p')"
  show ?thesis
    using a True
    by (cases "queue p") (auto simp: DispatchThread_top_def same_config_def split: if_splits)
qed

lemma top_fails:
  "DispatchThread_top perm p = Inl f \<Longrightarrow> \<not> ok (pool_status p) \<and> num_threads p = 1 \<and> queue p \<noteq> []"
proof -
  assume a: "DispatchThread_top perm p = Inl f"
  then have n: "\<not> ok (pool_status p)"
    by (auto simp: DispatchThread_top_def split: if_splits list.splits)
  then have "DispatchThread_exit (emit [VLog] p) = Inl f"
    using a by (cases "DispatchThread_exit (emit [VLog] p)") (auto simp: DispatchThread_top_def)
  from exit_fails [OF this] n show ?thesis by (simp add: emit_def)
qed

lemma section_effect:
  "DispatchThread_section perm r p = Inr (y, p') \<Longrightarrow>
     same_config p p' \<and> pool_status p' = pool_status p
     \<and> num_threads p' = num_threads p - (if y = Exited then 1 else 0)
     \<and> active_threads p' = active_threads p - (if r = AfterRun then 1 else 0) + (if took y then 1 else 0)
     \<and> queue p = (case y of Unlocked e \<Rightarrow> e # queue p' | _ \<Rightarrow> queue p')
     \<and> queue_size p' = queue_size p - (if took y then 1 else 0)
     \<and> (\<exists>es. events p' = events p @ es \<and> set es \<subseteq> notices)
     \<and> (y = Exited \<longrightarrow> \<not> ok (pool_status p) \<or> r = AfterTimedWait TimedOut \<and> queue p = [])
     \<and> (y = InWait \<longrightarrow> perm \<and> queue p = [])
     \<and> (y = InTimedWait \<longrightarrow> \<not> perm \<and> queue p = [])"
proof -
  assume a: "DispatchThread_section perm r p = Inr (y, p')"
  show ?thesis
  proof (cases r)
    case AtStart
    then have "DispatchThread_top perm p = Inr (y, p')" using a by (simp add: DispatchThread_section_def)
    from top_effect [OF this] show ?thesis using AtStart by auto
  next
    case AfterWait
    then have "DispatchThread_top perm p = Inr (y, p')" using a by (simp add: DispatchThread_section_def)
    from top_effect [OF this] show ?thesis using AfterWait by auto
  next
    case (AfterTimedWait w)
    show ?thesis
    proof (cases "w = TimedOut \<and> queue p = []")
      case True
      then obtain q where q: "DispatchThread_exit (emit [VLog] p) = Inr q" and y: "y = Exited" and p': "p' = q"
        using a AfterTimedWait
        by (cases "DispatchThread_exit (emit [VLog] p)") (auto simp: DispatchThread_section_def)
      from exit_effect [OF q] show ?thesis
        using y p' True AfterTimedWait by (auto simp: emit_def same_config_def notices_def)
    next
      case False
      then have "DispatchThread_top perm p = Inr (y, p')"
        using a AfterTimedWait by (auto simp: DispatchThread_section_def)
      from top_effect [OF this] show ?thesis using AfterTimedWait by auto
    qed
  next
    case AfterRun
    let ?p1 = "p\<lparr>active_threads := active_threads p - 1\<rparr>"
    let ?p2 = "if active_threads ?p1 = 0 then emit [NotifyAll_idle] ?p1 else ?p1"
    have t: "DispatchThread_top perm ?p2 = Inr (y, p')"
      using a AfterRun by (simp add: DispatchThread_section_def Let_def)
    have p2: "same_config p ?p2" "pool_status ?p2 = pool_status p" "num_threads ?p2 = num_threads p"
      "active_threads ?p2 = active_threads p - 1" "queue ?p2 = queue p" "queue_size ?p2 = queue_size p"
      by (simp_all add: same_config_def emit_def)
    have e2: "\<exists>es. events ?p2 = events p @ es \<and> set es \<subseteq> notices"
      by (auto simp: emit_def notices_def)
    from top_effect [OF t] p2 e2 show ?thesis
      using AfterRun
      by (simp only: same_config_def, elim conjE exE, intro conjI, simp_all)
  qed
qed

lemma section_fails:
  "DispatchThread_section perm r p = Inl f \<Longrightarrow>
     num_threads p = 1 \<and> queue p \<noteq> [] \<and> \<not> ok (pool_status p)"
proof -
  assume a: "DispatchThread_section perm r p = Inl f"
  show ?thesis
  proof (cases r)
    case AtStart
    then show ?thesis using a top_fails [of perm p f] by (simp add: DispatchThread_section_def)
  next
    case AfterWait
    then show ?thesis using a top_fails [of perm p f] by (simp add: DispatchThread_section_def)
  next
    case (AfterTimedWait w)
    show ?thesis
    proof (cases "w = TimedOut \<and> queue p = []")
      case True
      then have "DispatchThread_exit (emit [VLog] p) = Inl f"
        using a AfterTimedWait
        by (cases "DispatchThread_exit (emit [VLog] p)") (auto simp: DispatchThread_section_def)
      from exit_fails [OF this] True show ?thesis by (simp add: emit_def)
    next
      case False
      then show ?thesis
        using a AfterTimedWait top_fails [of perm p f] by (auto simp: DispatchThread_section_def)
    qed
  next
    case AfterRun
    let ?p1 = "p\<lparr>active_threads := active_threads p - 1\<rparr>"
    let ?p2 = "if active_threads ?p1 = 0 then emit [NotifyAll_idle] ?p1 else ?p1"
    have t: "DispatchThread_top perm ?p2 = Inl f"
      using a AfterRun by (simp add: DispatchThread_section_def Let_def)
    from top_fails [OF t] show ?thesis by (simp add: emit_def split: if_splits)
  qed
qed

section \<open>ThreadPool: the invariants hold in every reachable state\<close>

lemma Uninitialized_not_ok: "IsUninitialized st \<Longrightarrow> \<not> ok st"
  by (cases st) auto

lemma notices_quiet:
  "set es \<subseteq> notices \<Longrightarrow>
     how_many (\<lambda>e. e = TraceAddRef t) es = 0 \<and> how_many (\<lambda>e. e = TraceRelease t) es = 0"
  by (auto simp: how_many_zero_iff notices_def)

lemma no_trace_calls_quiet:
  "no_trace_calls es \<Longrightarrow>
     how_many (\<lambda>e. e = TraceAddRef t) es = 0 \<and> how_many (\<lambda>e. e = TraceRelease t) es = 0"
  by (auto simp: how_many_zero_iff no_trace_calls_def)

lemma how_many_replicate: "how_many P (replicate k x) = (if P x then int k else 0)"
  by (induction k) auto

lemma permanent_le_live:
  "list_all (\<lambda>w. permanent w \<longrightarrow> live w) ws \<Longrightarrow> how_many permanent ws \<le> how_many live ws"
  by (rule how_many_mono) (auto simp: list_all_iff)

lemma sys_inv_new: "built b \<Longrightarrow> sys_inv (sys_new b)"
  using built_bounds [of b]
  by (simp add: sys_inv_def inv_counts_def inv_config_def inv_queue_def inv_workers_def
        inv_traces_def sys_new_def ThreadPool_new_def)

lemma sys_inv_shutdown:
  assumes "sys_inv s" and "\<not> stuck s"
  shows "sys_inv (s\<lparr>pool := snd (Shutdown (pool s))\<rparr>)"
proof -
  let ?p = "pool s" and ?p' = "Shutdown_enter (pool s)"
  note e = Shutdown_enter_effect [of ?p]
  have s': "snd (Shutdown ?p) = ?p'" by (simp add: Shutdown_def Let_def)
  have 1: "inv_counts (s\<lparr>pool := ?p'\<rparr>)"
    using assms e by (simp add: sys_inv_def inv_counts_def)
  have 2: "inv_config (s\<lparr>pool := ?p'\<rparr>)"
    using assms e by (simp add: sys_inv_def inv_config_def same_config_def)
  have 3: "inv_queue (s\<lparr>pool := ?p'\<rparr>)"
    using assms e by (simp add: sys_inv_def inv_queue_def inv_config_def same_config_def)
  have 4: "inv_workers (s\<lparr>pool := ?p'\<rparr>)"
    using assms e by (simp add: sys_inv_def inv_workers_def)
  have 5: "inv_traces (s\<lparr>pool := ?p'\<rparr>)"
    using assms e by (simp add: sys_inv_def inv_traces_def release_traces_count)
  from 1 2 3 4 5 show ?thesis by (simp add: sys_inv_def s')
qed

lemma sys_inv_submit:
  assumes inv: "sys_inv s" and ns: "\<not> stuck s" and sub: "Submit r cur cr (pool s) = (st, p')"
  shows "sys_inv (s\<lparr>pool := p', workers := workers s @ spawned (new_events (pool s) p')\<rparr>)"
proof (cases "ok st")
  case False
  from Submit_rejected [OF sub False] obtain es where
    h: "queue p' = queue (pool s)" "queue_size p' = queue_size (pool s)"
       "num_threads p' = num_threads (pool s)" "events p' = events (pool s) @ es"
       "spawned es = []" "no_trace_calls es"
    by blast
  note f = Submit_frame [OF sub]
  have ne: "new_events (pool s) p' = es" using h by (simp add: new_events_append)
  show ?thesis
    using inv h f no_trace_calls_quiet [OF h(6)]
    by (simp add: sys_inv_def inv_counts_def inv_config_def inv_queue_def inv_workers_def
          inv_traces_def same_config_def ne)
next
  case True
  let ?p = "pool s"
  let ?new = "if spawn_wanted ?p \<and> ok cr
              then [\<lparr>permanent = num_threads ?p < min_threads ?p, place = Created\<rparr>] else []"
  from Submit_accepted [OF sub True] obtain es where
    h: "st = OK" "ok (pool_status ?p)" "queue_size ?p \<noteq> max_queue_size ?p"
       "queue p' = queue ?p @ [\<lparr>runnable = r, trace = cur\<rparr>]"
       "queue_size p' = queue_size ?p + 1"
       "num_threads p' = num_threads ?p + (if spawn_wanted ?p \<and> ok cr then 1 else 0)"
       "events p' = events ?p @ es" "spawned es = ?new"
       "\<forall>t. how_many (\<lambda>e. e = TraceAddRef t) es = (if cur = Some t then 1 else 0)"
       "\<forall>t. how_many (\<lambda>e. e = TraceRelease t) es = 0"
    by blast
  note f = Submit_frame [OF sub]
  have ne: "new_events ?p p' = es" using h by (simp add: new_events_append)
  have le: "min_threads ?p \<le> num_threads ?p"
    using inv ns h(2) permanent_le_live [of "workers s"]
    by (simp add: sys_inv_def inv_workers_def inv_counts_def)
  then have new: "?new = (if spawn_wanted ?p \<and> ok cr then [\<lparr>permanent = False, place = Created\<rparr>] else [])"
    by simp
  have 1: "inv_counts (s\<lparr>pool := p', workers := workers s @ ?new\<rparr>)"
    using inv h f by (simp add: sys_inv_def inv_counts_def)
  have 2: "inv_config (s\<lparr>pool := p', workers := workers s @ ?new\<rparr>)"
    using inv f by (simp add: sys_inv_def inv_config_def same_config_def)
  have 3: "inv_queue (s\<lparr>pool := p', workers := workers s @ ?new\<rparr>)"
    using inv h f by (simp add: sys_inv_def inv_queue_def same_config_def)
  have 4: "inv_workers (s\<lparr>pool := p', workers := workers s @ ?new\<rparr>)"
    using inv h(2) f ns Uninitialized_not_ok [of "pool_status ?p"] unfolding new
    by (auto simp: sys_inv_def inv_workers_def same_config_def)
  have 5: "inv_traces (s\<lparr>pool := p', workers := workers s @ ?new\<rparr>)"
    using inv h(4,7,9,10) by (simp add: sys_inv_def inv_traces_def)
  from 1 2 3 4 5 show ?thesis by (simp add: sys_inv_def ne h(8))
qed

lemma sys_inv_init:
  assumes inv: "sys_inv s" and ns: "\<not> stuck s"
  shows "(Init cr (pool s) = InitReturned st p' \<longrightarrow>
            sys_inv (s\<lparr>pool := p', workers := workers s @ spawned (new_events (pool s) p')\<rparr>))
       \<and> (Init cr (pool s) = InitStuck p' \<longrightarrow>
            sys_inv (s\<lparr>pool := p', workers := workers s @ spawned (new_events (pool s) p'),
                      stuck := True\<rparr>))"
proof (cases "IsUninitialized (pool_status (pool s))")
  case False
  then have "Init cr (pool s) = InitReturned (NotSupported ''The thread pool is already initialized'') (pool s)"
    by (simp add: Init_def)
  then show ?thesis using inv by auto
next
  case True
  let ?p = "pool s"
  let ?init = "?p\<lparr>pool_status := OK\<rparr>"
  have nok: "\<not> ok (pool_status ?p)" using True by (rule Uninitialized_not_ok)
  have w0: "workers s = []" and n0: "num_threads ?p = 0" and a0: "active_threads ?p = 0"
    and q0: "queue ?p = []"
    using inv True nok by (simp_all add: sys_inv_def inv_workers_def inv_counts_def inv_queue_def)
  have I: "Init cr ?p = Init_loop cr 0 (min_threads ?p) ?init" using True by (simp add: Init_def)
  have mn: "0 \<le> min_threads ?p" using inv by (simp add: sys_inv_def inv_config_def)
  have i0: "num_threads ?init = 0" and im: "min_threads ?p = min_threads ?init"
    using n0 by simp_all
  from Init_loop_effect [OF I [symmetric] i0 im]
  obtain q es k where h0:
    "Init cr ?p = InitReturned OK q \<and> num_threads q = max 0 (min_threads ?p)
       \<or> Init cr ?p = InitStuck q \<and> num_threads q < min_threads ?p"
    "same_config ?init q" "pool_status q = pool_status ?init" "queue q = queue ?init"
    "queue_size q = queue_size ?init"
    "active_threads q = active_threads ?init" "events q = events ?init @ es" "no_trace_calls es"
    "spawned es = replicate k \<lparr>permanent = True, place = Created\<rparr>"
    "num_threads q = num_threads ?init + int k"
    by blast
  have h:
    "Init cr ?p = InitReturned OK q \<and> num_threads q = max 0 (min_threads ?p)
       \<or> Init cr ?p = InitStuck q \<and> num_threads q < min_threads ?p"
    "same_config ?p q" "pool_status q = OK" "queue q = []" "queue_size q = queue_size ?p"
    "active_threads q = 0" "events q = events ?p @ es" "no_trace_calls es"
    "spawned es = replicate k \<lparr>permanent = True, place = Created\<rparr>"
    "num_threads q = int k"
    using h0 q0 a0 n0 by (simp_all add: same_config_def)
  have ne: "new_events ?p q = es" using h by (simp add: new_events_append)
  let ?ws = "replicate k \<lparr>permanent = True, place = Created\<rparr> :: 'a worker list"
  have c: "inv_counts (s\<lparr>pool := q, workers := ?ws, stuck := b\<rparr>)" for b
    using inv h q0 by (simp add: sys_inv_def inv_counts_def how_many_replicate)
  have g: "inv_config (s\<lparr>pool := q, workers := ?ws, stuck := b\<rparr>)" for b
    using inv h by (simp add: sys_inv_def inv_config_def same_config_def)
  have u: "inv_queue (s\<lparr>pool := q, workers := ?ws, stuck := b\<rparr>)" for b
    using inv h by (simp add: sys_inv_def inv_queue_def same_config_def)
  have t: "inv_traces (s\<lparr>pool := q, workers := ?ws, stuck := b\<rparr>)" for b
    using inv h q0 w0 no_trace_calls_quiet [OF h(8)]
    by (simp add: sys_inv_def inv_traces_def how_many_replicate)
  have wS: "inv_workers (s\<lparr>pool := q, workers := ?ws, stuck := True\<rparr>)"
    using h by (simp add: inv_workers_def list_all_iff)
  have wR: "p' = q \<and> inv_workers (s\<lparr>pool := q, workers := ?ws\<rparr>)"
    if a: "Init cr ?p = InitReturned st p'"
  proof -
    from a h(1) have pq: "p' = q" and nq: "num_threads q = max 0 (min_threads ?p)" by auto
    then have "int k = min_threads q" using h(10) h(2) mn by (simp add: same_config_def)
    then have "inv_workers (s\<lparr>pool := q, workers := ?ws\<rparr>)"
      using h(3) ns by (simp add: inv_workers_def list_all_iff how_many_replicate)
    with pq show ?thesis by simp
  qed
  have R: "Init cr ?p = InitReturned st p' \<longrightarrow>
            sys_inv (s\<lparr>pool := p', workers := workers s @ spawned (new_events ?p p')\<rparr>)"
  proof
    assume a: "Init cr ?p = InitReturned st p'"
    then have "p' = q" using wR by simp
    moreover have "inv_counts (s\<lparr>pool := q, workers := ?ws\<rparr>)" using c [of "stuck s"] by simp
    moreover have "inv_config (s\<lparr>pool := q, workers := ?ws\<rparr>)" using g [of "stuck s"] by simp
    moreover have "inv_queue (s\<lparr>pool := q, workers := ?ws\<rparr>)" using u [of "stuck s"] by simp
    moreover have "inv_traces (s\<lparr>pool := q, workers := ?ws\<rparr>)" using t [of "stuck s"] by simp
    ultimately show "sys_inv (s\<lparr>pool := p', workers := workers s @ spawned (new_events ?p p')\<rparr>)"
      using wR [OF a] by (simp add: sys_inv_def w0 ne h(9))
  qed
  have S: "Init cr ?p = InitStuck p' \<longrightarrow>
            sys_inv (s\<lparr>pool := p', workers := workers s @ spawned (new_events ?p p'), stuck := True\<rparr>)"
  proof
    assume a: "Init cr ?p = InitStuck p'"
    then have "p' = q" using h(1) by auto
    then show "sys_inv (s\<lparr>pool := p', workers := workers s @ spawned (new_events ?p p'), stuck := True\<rparr>)"
      using c [of True] g [of True] u [of True] t [of True] wS
      by (simp add: sys_inv_def w0 ne h(9))
  qed
  from R S show ?thesis by blast
qed

lemma resume_of_facts:
  "resume_of pl w = Some r \<Longrightarrow>
     pl \<noteq> Parked Exited \<and> (\<forall>e. pl \<noteq> Parked (Unlocked e))
     \<and> (r = AfterRun \<longleftrightarrow> pl = Relocking)
     \<and> (r = AfterTimedWait TimedOut \<longrightarrow> pl = Parked InTimedWait)"
  by (induction pl w rule: resume_of.induct) auto

lemma busy_Parked: "busy (w\<lparr>place := Parked y\<rparr>) = took y"
  by (cases y) auto

lemma holds_Parked:
  "holds t (w\<lparr>place := Parked y\<rparr>) = (case y of Unlocked e \<Rightarrow> trace e = Some t | _ \<Rightarrow> False)"
  by (cases y) auto

lemma sys_inv_locks:
  assumes inv: "sys_inv s" and i: "i < length (workers s)"
    and r: "resume_of (place (workers s ! i)) w = Some r"
    and sec: "DispatchThread_section (permanent (workers s ! i)) r (pool s) = Inr (y, p')"
  shows "sys_inv (s\<lparr>pool := p', workers := (workers s)[i := (workers s ! i)\<lparr>place := Parked y\<rparr>]\<rparr>)"
proof -
  let ?p = "pool s" and ?ws = "workers s" and ?w = "workers s ! i"
  let ?w' = "?w\<lparr>place := Parked y\<rparr>"
  let ?s' = "s\<lparr>pool := p', workers := ?ws[i := ?w']\<rparr>"
  note rf = resume_of_facts [OF r]
  from section_effect [OF sec] obtain es where e:
    "same_config ?p p'" "pool_status p' = pool_status ?p"
    "num_threads p' = num_threads ?p - (if y = Exited then 1 else 0)"
    "active_threads p' = active_threads ?p - (if r = AfterRun then 1 else 0) + (if took y then 1 else 0)"
    "queue ?p = (case y of Unlocked e \<Rightarrow> e # queue p' | _ \<Rightarrow> queue p')"
    "queue_size p' = queue_size ?p - (if took y then 1 else 0)"
    "events p' = events ?p @ es" "set es \<subseteq> notices"
    "y = Exited \<longrightarrow> \<not> ok (pool_status ?p) \<or> r = AfterTimedWait TimedOut \<and> queue ?p = []"
    "y = InWait \<longrightarrow> permanent ?w \<and> queue ?p = []"
    "y = InTimedWait \<longrightarrow> \<not> permanent ?w \<and> queue ?p = []"
    by blast
  have win: "?w \<in> set ?ws" using i by simp
  have live_w: "live ?w" and nbusy: "busy ?w = (r = AfterRun)" and nholds: "\<not> holds t ?w" for t
    using rf by (auto split: place.splits yield.splits)
  have live_w': "live ?w' = (y \<noteq> Exited)" by simp
  have 1: "inv_counts ?s'"
  proof -
    have "queue_size p' = int (length (queue p'))"
      using inv e(5,6) by (cases y) (auto simp: sys_inv_def inv_counts_def)
    moreover have "num_threads p' = how_many live (?ws[i := ?w'])"
      using inv e(3) live_w live_w' i
      by (simp add: sys_inv_def inv_counts_def how_many_update del: live.simps)
    moreover have "active_threads p' = how_many busy (?ws[i := ?w'])"
      using inv e(4) nbusy i
      by (simp add: sys_inv_def inv_counts_def how_many_update busy_Parked del: busy.simps)
    ultimately show ?thesis by (simp add: inv_counts_def)
  qed
  have 2: "inv_config ?s'"
    using inv e(1) by (simp add: sys_inv_def inv_config_def same_config_def)
  have 3: "inv_queue ?s'"
    using inv e(1,2,5,6) by (cases y) (auto simp: sys_inv_def inv_queue_def same_config_def)
  have 4: "inv_workers ?s'"
  proof -
    have iw: "inv_workers s" using inv by (simp add: sys_inv_def)
    have a: "IsUninitialized (pool_status p') \<longrightarrow> ?ws[i := ?w'] = []"
      using iw e(2) i by (auto simp: inv_workers_def)
    have b: "stuck s \<longrightarrow> ok (pool_status p')" using iw e(2) by (simp add: inv_workers_def)
    have cons: "(place ?w = Parked InTimedWait \<longrightarrow> \<not> permanent ?w)"
      using iw win by (auto simp: inv_workers_def list_all_iff)
    have c: "ok (pool_status p') \<longrightarrow> list_all (\<lambda>w. permanent w \<longrightarrow> live w) (?ws[i := ?w'])"
    proof
      assume okp: "ok (pool_status p')"
      then have la: "list_all (\<lambda>w. permanent w \<longrightarrow> live w) ?ws"
        using iw e(2) by (simp add: inv_workers_def)
      have "permanent ?w' \<longrightarrow> live ?w'"
        using e(9) okp e(2) rf cons by auto
      with la show "list_all (\<lambda>w. permanent w \<longrightarrow> live w) (?ws[i := ?w'])"
        by (rule list_all_update)
    qed
    have d: "ok (pool_status p') \<and> \<not> stuck s \<longrightarrow> how_many permanent (?ws[i := ?w']) = min_threads p'"
      using iw e(1,2) i by (simp add: inv_workers_def how_many_update same_config_def)
    have f: "list_all (\<lambda>w. (place w = Parked InTimedWait \<longrightarrow> \<not> permanent w)
                     \<and> (place w = Parked InWait \<longrightarrow> permanent w)) (?ws[i := ?w'])"
    proof (rule list_all_update)
      show "list_all (\<lambda>w. (place w = Parked InTimedWait \<longrightarrow> \<not> permanent w)
                     \<and> (place w = Parked InWait \<longrightarrow> permanent w)) ?ws"
        using iw by (simp add: inv_workers_def)
      show "(place ?w' = Parked InTimedWait \<longrightarrow> \<not> permanent ?w')
             \<and> (place ?w' = Parked InWait \<longrightarrow> permanent ?w')"
        using e(10,11) by simp
    qed
    from a b c d f show ?thesis by (simp add: inv_workers_def)
  qed
  have 5: "inv_traces ?s'"
  proof -
    have it: "inv_traces s" using inv by (simp add: sys_inv_def)
    have "how_many (\<lambda>e. e = TraceAddRef t) (events p')
           = how_many (\<lambda>e. e = TraceRelease t) (events p')
             + how_many (\<lambda>e. trace e = Some t) (queue p')
             + how_many (holds t) (?ws[i := ?w'])" for t
    proof -
      have q: "how_many (\<lambda>e. trace e = Some t) (queue ?p)
                = how_many (\<lambda>e. trace e = Some t) (queue p')
                  + (case y of Unlocked e \<Rightarrow> (if trace e = Some t then 1 else 0) | _ \<Rightarrow> 0)"
        using e(5) by (cases y) auto
      have hl: "how_many (holds t) (?ws[i := ?w'])
                = how_many (holds t) ?ws
                  + (case y of Unlocked e \<Rightarrow> (if trace e = Some t then 1 else 0) | _ \<Rightarrow> 0)"
        using i nholds [of t]
        by (cases y) (simp_all add: how_many_update holds_Parked del: holds.simps)
      show ?thesis
        using it [unfolded inv_traces_def, rule_format, of t] q hl e(7) notices_quiet [OF e(8), of t]
        by simp
    qed
    then show ?thesis by (simp add: inv_traces_def)
  qed
  from 1 2 3 4 5 show ?thesis by (simp add: sys_inv_def)
qed

lemma sys_inv_runs:
  assumes inv: "sys_inv s" and i: "i < length (workers s)"
    and pl: "place (workers s ! i) = Parked (Unlocked e)"
  shows "sys_inv (s\<lparr>pool := DispatchThread_unlocked e (pool s),
                    workers := (workers s)[i := (workers s ! i)\<lparr>place := Relocking\<rparr>]\<rparr>)"
proof -
  let ?p = "pool s" and ?ws = "workers s" and ?w = "workers s ! i"
  let ?p' = "DispatchThread_unlocked e (pool s)"
  let ?w' = "?w\<lparr>place := Relocking\<rparr>"
  let ?s' = "s\<lparr>pool := ?p', workers := ?ws[i := ?w']\<rparr>"
  from unlocked_effect [of ?p e] obtain es where u:
    "same_config ?p ?p'" "pool_status ?p' = pool_status ?p" "queue ?p' = queue ?p"
    "queue_size ?p' = queue_size ?p" "num_threads ?p' = num_threads ?p"
    "active_threads ?p' = active_threads ?p" "events ?p' = events ?p @ es"
    "\<forall>t. how_many (\<lambda>e. e = TraceAddRef t) es = 0"
    "\<forall>t. how_many (\<lambda>x. x = TraceRelease t) es = (if trace e = Some t then 1 else 0)"
    by blast
  have 1: "inv_counts ?s'"
    using inv u i pl by (simp add: sys_inv_def inv_counts_def how_many_update)
  have 2: "inv_config ?s'"
    using inv u(1) by (simp add: sys_inv_def inv_config_def same_config_def)
  have 3: "inv_queue ?s'"
    using inv u by (simp add: sys_inv_def inv_queue_def same_config_def)
  have 4: "inv_workers ?s'"
  proof -
    have iw: "inv_workers s" using inv by (simp add: sys_inv_def)
    have a: "IsUninitialized (pool_status ?p') \<longrightarrow> ?ws[i := ?w'] = []"
      using iw u(2) i by (auto simp: inv_workers_def)
    have b: "stuck s \<longrightarrow> ok (pool_status ?p')" using iw u(2) by (simp add: inv_workers_def)
    have c: "ok (pool_status ?p') \<longrightarrow> list_all (\<lambda>w. permanent w \<longrightarrow> live w) (?ws[i := ?w'])"
      using iw u(2) by (auto simp: inv_workers_def intro: list_all_update)
    have d: "ok (pool_status ?p') \<and> \<not> stuck s \<longrightarrow> how_many permanent (?ws[i := ?w']) = min_threads ?p'"
      using iw u(1,2) i by (simp add: inv_workers_def how_many_update same_config_def)
    have f: "list_all (\<lambda>w. (place w = Parked InTimedWait \<longrightarrow> \<not> permanent w)
                     \<and> (place w = Parked InWait \<longrightarrow> permanent w)) (?ws[i := ?w'])"
      using iw by (auto simp: inv_workers_def intro: list_all_update)
    from a b c d f show ?thesis by (simp add: inv_workers_def)
  qed
  have 5: "inv_traces ?s'"
    using inv u(3,7,8,9) i pl by (simp add: sys_inv_def inv_traces_def how_many_update)
  from 1 2 3 4 5 show ?thesis by (simp add: sys_inv_def)
qed

lemma sys_step_inv:
  assumes inv: "sys_inv s" and st: "sys_step a s = Some (Inr s')"
  shows "sys_inv s'"
proof -
  have ns: "\<not> stuck s" using st by (auto simp: sys_step_def split: if_splits)
  show ?thesis
  proof (cases a)
    case (DoInit cr)
    show ?thesis
    proof (cases "Init cr (pool s)")
      case (InitReturned x p')
      then have "s' = s\<lparr>pool := p', workers := workers s @ spawned (new_events (pool s) p')\<rparr>"
        using st ns DoInit by (simp add: sys_step_def)
      then show ?thesis using sys_inv_init [OF inv ns, of cr x p'] InitReturned by simp
    next
      case (InitStuck p')
      then have "s' = s\<lparr>pool := p', workers := workers s @ spawned (new_events (pool s) p'),
                         stuck := True\<rparr>"
        using st ns DoInit by (simp add: sys_step_def)
      then show ?thesis using sys_inv_init [OF inv ns, of cr OK p'] InitStuck by simp
    qed
  next
    case (DoSubmit r cur cr)
    obtain x p' where sub: "Submit r cur cr (pool s) = (x, p')"
      by (cases "Submit r cur cr (pool s)") auto
    then have "s' = s\<lparr>pool := p', workers := workers s @ spawned (new_events (pool s) p')\<rparr>"
      using st ns DoSubmit by (simp add: sys_step_def)
    then show ?thesis using sys_inv_submit [OF inv ns sub] by simp
  next
    case DoShutdown
    then have "s' = s\<lparr>pool := snd (Shutdown (pool s))\<rparr>"
      using st ns by (simp add: sys_step_def)
    then show ?thesis using sys_inv_shutdown [OF inv ns] by simp
  next
    case (WorkerLocks i w)
    from st ns WorkerLocks have i: "i < length (workers s)"
      by (auto simp: sys_step_def split: if_splits)
    from st ns WorkerLocks i obtain r where r: "resume_of (place (workers s ! i)) w = Some r"
      by (auto simp: sys_step_def split: option.splits)
    from st ns WorkerLocks i r obtain y p' where
      sec: "DispatchThread_section (permanent (workers s ! i)) r (pool s) = Inr (y, p')"
      and s': "s' = s\<lparr>pool := p', workers := (workers s)[i := (workers s ! i)\<lparr>place := Parked y\<rparr>]\<rparr>"
      by (auto simp: sys_step_def split: sum.splits)
    show ?thesis using sys_inv_locks [OF inv i r sec] s' by simp
  next
    case (WorkerRuns i)
    from st ns WorkerRuns have i: "i < length (workers s)"
      by (auto simp: sys_step_def split: if_splits)
    from st ns WorkerRuns i obtain e where pl: "place (workers s ! i) = Parked (Unlocked e)"
      and s': "s' = s\<lparr>pool := DispatchThread_unlocked e (pool s),
                       workers := (workers s)[i := (workers s ! i)\<lparr>place := Relocking\<rparr>]\<rparr>"
      by (auto simp: sys_step_def split: place.splits yield.splits)
    show ?thesis using sys_inv_runs [OF inv i pl] s' by simp
  qed
qed

lemma reachable_inv: "reachable s \<Longrightarrow> sys_inv s"
  by (induction rule: reachable.induct) (auto intro: sys_inv_new sys_step_inv)

lemma check_never_fails:
  assumes "reachable s"
  shows "sys_step a s \<noteq> Some (Inl CheckFailed)"
proof
  assume f: "sys_step a s = Some (Inl CheckFailed)"
  have inv: "sys_inv s" using assms by (rule reachable_inv)
  from f obtain i w r where
    "DispatchThread_section (permanent (workers s ! i)) r (pool s) = Inl CheckFailed"
    by (auto simp: sys_step_def split: if_splits action.splits init_result.splits prod.splits
          option.splits sum.splits place.splits yield.splits)
  from section_fails [OF this] inv show False
    by (simp add: sys_inv_def inv_queue_def)
qed

section \<open>ThreadPool: example states are reachable\<close>

lemma run_reachable: "reachable s \<Longrightarrow> run as s = Some s' \<Longrightarrow> reachable s'"
proof (induction as arbitrary: s)
  case Nil
  then show ?case by simp
next
  case (Cons a as)
  then obtain s1 where 1: "sys_step a s = Some (Inr s1)" and 2: "run as s1 = Some s'"
    by (auto split: option.splits sum.splits)
  from Cons.prems(1) 1 have "reachable s1" by (rule reachable_step)
  with 2 show ?case by (rule Cons.IH [rotated])
qed

lemma demo_reachable: "reachable demo"
  unfolding demo_def by (rule reachable_new, rule built_new) simp

lemmas demo_eval =
  demo_def sys_new_def ThreadPool_new_def ThreadPoolBuilder_new_def sys_step_def Init_def
  Submit_def CreateThreadUnlocked_def enqueue_def emit_def new_events_def
  DispatchThread_section_def DispatchThread_top_def DispatchThread_exit_def
  DispatchThread_unlocked_def Shutdown_def Shutdown_enter_def ClearQueue_def Shutdown_loop_def
  Let_def INT_MAX_def FromMilliseconds_def

lemma demo_running_run: "run [DoInit (\<lambda>i. OK)] demo = Some demo_running"
  by (simp add: demo_eval demo_running_def)

lemma demo_timed_wait_run:
  "run [DoSubmit 7 (Some 3) OK, WorkerLocks 0 Notified, WorkerRuns 0, WorkerLocks 0 Notified]
     demo_running = Some demo_timed_wait"
  by (simp add: demo_eval demo_running_def demo_timed_wait_def)

lemma demo_down_run:
  "run [DoSubmit 7 (Some 3) OK, DoSubmit 8 (Some 3) OK, DoShutdown,
        WorkerLocks 0 Notified, WorkerLocks 1 Notified] demo_running = Some demo_down"
  by (simp add: demo_eval demo_running_def demo_down_def)

lemma demo_running_reachable: "reachable demo_running"
  using demo_reachable demo_running_run by (rule run_reachable)

lemma demo_timed_wait_reachable: "reachable demo_timed_wait"
  using demo_running_reachable demo_timed_wait_run by (rule run_reachable)

lemma demo_down_reachable: "reachable demo_down"
  using demo_running_reachable demo_down_run by (rule run_reachable)

lemma demo_permanent_reachable: "reachable demo_permanent"
proof -
  have "built (ThreadPoolBuilder_new 4 ''q'')" by (rule built_new) simp
  moreover have "set_min_threads 1 (ThreadPoolBuilder_new 4 ''q'')
                   = Inr ((ThreadPoolBuilder_new 4 ''q'')\<lparr>b_min_threads := 1\<rparr>)"
    by (simp add: set_min_threads_def)
  ultimately have "built ((ThreadPoolBuilder_new 4 ''q'')\<lparr>b_min_threads := 1\<rparr>)"
    by (rule built_min)
  then show ?thesis unfolding demo_permanent_def by (rule reachable_new)
qed

lemma demo_permanent_down_run:
  "run [DoInit (\<lambda>i. OK), WorkerLocks 0 Notified, DoShutdown] demo_permanent = Some demo_permanent_down"
  by (simp add: demo_eval demo_permanent_def demo_permanent_down_def)

lemma demo_permanent_down_reachable: "reachable demo_permanent_down"
  using demo_permanent_reachable demo_permanent_down_run by (rule run_reachable)

section \<open>ThreadPool: submission\<close>

lemma Submit_error_iff:
  "\<not> ok (fst (Submit r cur cr p)) \<longleftrightarrow>
     \<not> ok (pool_status p) \<or> queue_size p = max_queue_size p
     \<or> (spawn_wanted p \<and> \<not> ok cr \<and> num_threads p = 0)"
  by (auto simp: Submit_def CreateThreadUnlocked_def Let_def emit_def spawn_wanted_def)

lemma Submit_error_value:
  "(\<not> ok (pool_status p) \<longrightarrow> fst (Submit r cur cr p) = pool_status p)
   \<and> (ok (pool_status p) \<and> queue_size p = max_queue_size p \<longrightarrow>
        fst (Submit r cur cr p) =
          ServiceUnavailable (''Thread pool queue is full ('' @ int_to_string (queue_size p) @ '' items)''))
   \<and> (ok (pool_status p) \<and> queue_size p \<noteq> max_queue_size p \<and> \<not> ok (fst (Submit r cur cr p)) \<longrightarrow>
        fst (Submit r cur cr p) = cr)"
  by (auto simp: Submit_def CreateThreadUnlocked_def Let_def emit_def spawn_wanted_def)

lemma no_threads_spawn_wanted:
  assumes inv: "sys_inv s" and n: "num_threads (pool s) = 0"
  shows "spawn_wanted (pool s)"
proof -
  have "0 \<le> queue_size (pool s)" using inv by (simp add: sys_inv_def inv_counts_def)
  moreover have "active_threads (pool s) \<le> num_threads (pool s)"
  proof -
    have "how_many busy (workers s) \<le> how_many live (workers s)"
      by (rule how_many_mono) (auto split: place.splits yield.splits)
    then show ?thesis using inv by (simp add: sys_inv_def inv_counts_def)
  qed
  moreover have "0 \<le> active_threads (pool s)"
    using inv how_many_nonneg [of busy "workers s"] by (simp add: sys_inv_def inv_counts_def)
  moreover have "1 \<le> max_threads (pool s)" using inv by (simp add: sys_inv_def inv_config_def)
  ultimately show ?thesis using n by (simp add: spawn_wanted_def)
qed

lemma thread_creates_append: "thread_creates (xs @ ys) = thread_creates xs @ thread_creates ys"
  by (induction xs rule: thread_creates.induct) auto

lemma Submit_creates:
  "ok (pool_status p) \<Longrightarrow> queue_size p \<noteq> max_queue_size p \<Longrightarrow>
     thread_creates (new_events p (snd (Submit r cur cr p)))
       = (if spawn_wanted p then [(num_threads p < min_threads p, cr)] else [])"
  by (auto simp: Submit_def CreateThreadUnlocked_def enqueue_def Let_def emit_def spawn_wanted_def
        new_events_def thread_creates_append split: option.splits)

lemma running_min_le_num:
  assumes "sys_inv s" and "\<not> stuck s" and "ok (pool_status (pool s))"
  shows "min_threads (pool s) \<le> num_threads (pool s)"
  using assms permanent_le_live [of "workers s"]
  by (simp add: sys_inv_def inv_workers_def inv_counts_def)

text \<open>
  C1: \<^verbatim>\<open>Submit\<close> returns an error exactly when the pool status is not OK, or the
  queue is full, or it calls thread creation, the creation fails and \<open>num_threads = 0\<close>.
  In a reachable state a pool without threads always calls thread creation, so there the
  third case is: the creation of a thread fails while \<open>num_threads = 0\<close>. When the
  status is not OK the error is that status: the ``not initialized'' status before
  \<^verbatim>\<open>Init\<close>, the ``shut down'' status after \<^verbatim>\<open>Shutdown\<close>. Whenever an error is
  returned, the queue, \<open>queue_size\<close> and the other fields of the pool are as before:
  nothing is enqueued.
\<close>

theorem C1_submit_errors:
  "(\<not> ok (fst (Submit r cur cr p)) \<longleftrightarrow>
       \<not> ok (pool_status p)
       \<or> queue_size p = max_queue_size p
       \<or> ((queue_size p + 1) - (num_threads p - active_threads p) > 0 \<and> num_threads p < max_threads p
           \<and> \<not> ok cr \<and> num_threads p = 0))
   \<and> (reachable s \<longrightarrow>
        (\<not> ok (fst (Submit r cur cr (pool s))) \<longleftrightarrow>
            \<not> ok (pool_status (pool s))
            \<or> queue_size (pool s) = max_queue_size (pool s)
            \<or> (\<not> ok cr \<and> num_threads (pool s) = 0)))
   \<and> (\<not> ok (pool_status p) \<longrightarrow> fst (Submit r cur cr p) = pool_status p)
   \<and> (\<not> ok (fst (Submit r cur cr p)) \<longrightarrow>
         queue (snd (Submit r cur cr p)) = queue p
         \<and> queue_size (snd (Submit r cur cr p)) = queue_size p
         \<and> num_threads (snd (Submit r cur cr p)) = num_threads p
         \<and> active_threads (snd (Submit r cur cr p)) = active_threads p
         \<and> pool_status (snd (Submit r cur cr p)) = pool_status p)
   \<and> fst (Submit r cur cr (ThreadPool_new b)) = Uninitialized ''The pool was not initialized.''
   \<and> fst (Submit r cur cr (snd (Shutdown p))) = ServiceUnavailable ''The pool has been shut down.''"
proof -
  have g: "\<not> ok (fst (Submit r cur cr p)) \<longleftrightarrow>
       \<not> ok (pool_status p) \<or> queue_size p = max_queue_size p
       \<or> ((queue_size p + 1) - (num_threads p - active_threads p) > 0 \<and> num_threads p < max_threads p
           \<and> \<not> ok cr \<and> num_threads p = 0)"
    using Submit_error_iff [of r cur cr p] by (simp add: spawn_wanted_def)
  have a: "reachable s \<longrightarrow>
        (\<not> ok (fst (Submit r cur cr (pool s))) \<longleftrightarrow>
            \<not> ok (pool_status (pool s)) \<or> queue_size (pool s) = max_queue_size (pool s)
            \<or> (\<not> ok cr \<and> num_threads (pool s) = 0))"
  proof
    assume "reachable s"
    then have inv: "sys_inv s" by (rule reachable_inv)
    show "\<not> ok (fst (Submit r cur cr (pool s))) \<longleftrightarrow>
            \<not> ok (pool_status (pool s)) \<or> queue_size (pool s) = max_queue_size (pool s)
            \<or> (\<not> ok cr \<and> num_threads (pool s) = 0)"
      using Submit_error_iff [of r cur cr "pool s"] no_threads_spawn_wanted [OF inv] by blast
  qed
  have b: "\<not> ok (pool_status p) \<longrightarrow> fst (Submit r cur cr p) = pool_status p"
    using Submit_error_value [of p r cur cr] by blast
  have c: "\<not> ok (fst (Submit r cur cr p)) \<longrightarrow>
            queue (snd (Submit r cur cr p)) = queue p
            \<and> queue_size (snd (Submit r cur cr p)) = queue_size p
            \<and> num_threads (snd (Submit r cur cr p)) = num_threads p
            \<and> active_threads (snd (Submit r cur cr p)) = active_threads p
            \<and> pool_status (snd (Submit r cur cr p)) = pool_status p"
    using Submit_rejected_unchanged [of r cur cr p "fst (Submit r cur cr p)" "snd (Submit r cur cr p)"]
    by simp
  have d: "fst (Submit r cur cr (ThreadPool_new b)) = Uninitialized ''The pool was not initialized.''"
    by (simp add: Submit_def ThreadPool_new_def)
  have e: "fst (Submit r cur cr (snd (Shutdown p))) = ServiceUnavailable ''The pool has been shut down.''"
    using Shutdown_enter_effect [of p] by (simp add: Submit_def Shutdown_def Let_def)
  from g a b c d e show ?thesis by blast
qed

theorem C1_submit_errors_witness:
  "reachable demo
   \<and> \<not> ok (pool_status (pool demo))
   \<and> \<not> ok (fst (Submit (7::nat) None OK (pool demo)))
   \<and> fst (Submit (7::nat) None OK (pool demo)) = pool_status (pool demo)
   \<and> queue (snd (Submit (7::nat) None OK (pool demo))) = queue (pool demo)
   \<and> reachable demo_running
   \<and> \<not> ok (fst (Submit (7::nat) None (RuntimeError ''Could not create thread'') (pool demo_running)))
   \<and> queue_size (snd (Submit (7::nat) None (RuntimeError ''Could not create thread'') (pool demo_running)))
       = queue_size (pool demo_running)
   \<and> ok (fst (Submit (7::nat) None OK (pool demo_running)))"
proof -
  let ?e = "RuntimeError ''Could not create thread''"
  have n: "\<not> ok (pool_status (pool demo))"
    by (simp add: demo_def sys_new_def ThreadPool_new_def)
  note c = C1_submit_errors [of 7 None OK "pool demo" demo]
  have 1: "\<not> ok (fst (Submit (7::nat) None OK (pool demo)))" using c n demo_reachable by blast
  have 2: "fst (Submit (7::nat) None OK (pool demo)) = pool_status (pool demo)" using c n by blast
  have 3: "queue (snd (Submit (7::nat) None OK (pool demo))) = queue (pool demo)" using c 1 by blast
  have up: "ok (pool_status (pool demo_running))"
    and room: "queue_size (pool demo_running) \<noteq> max_queue_size (pool demo_running)"
    and none: "num_threads (pool demo_running) = 0"
    by (simp_all add: demo_running_def)
  note c' = C1_submit_errors [of 7 None ?e "pool demo_running" demo_running]
  have 4: "\<not> ok (fst (Submit (7::nat) None ?e (pool demo_running)))"
    using c' demo_running_reachable none by simp
  have 5: "queue_size (snd (Submit (7::nat) None ?e (pool demo_running))) = queue_size (pool demo_running)"
    using c' 4 by blast
  have 6: "ok (fst (Submit (7::nat) None OK (pool demo_running)))"
    using C1_submit_errors [of 7 None OK "pool demo_running" demo_running] demo_running_reachable
      up room by simp
  from demo_reachable n 1 2 3 demo_running_reachable 4 5 6 show ?thesis by blast
qed

text \<open>
  C5: when \<^verbatim>\<open>Submit\<close> runs on a reachable pool that is running and whose queue is not
  full, it calls thread creation exactly once if
  \<open>(queue_size + 1) - (num_threads - active_threads) > 0\<close> and
  \<open>num_threads < max_threads\<close>, and not at all otherwise; the thread is created with
  \<open>permanent = false\<close>. The submission fails exactly if that creation fails while
  \<open>num_threads = 0\<close>, and then returns the creation's status and enqueues nothing; in
  every other case it returns OK and the entry is at the tail of the queue.
\<close>

theorem C5_spawn_on_submit:
  assumes re: "reachable s"
    and step: "sys_step (DoSubmit r cur cr) s = Some (Inr s')"
    and running: "ok (pool_status (pool s))"
    and room: "queue_size (pool s) \<noteq> max_queue_size (pool s)"
  shows "thread_creates (new_events (pool s) (pool s'))
           = (if (queue_size (pool s) + 1) - (num_threads (pool s) - active_threads (pool s)) > 0
                 \<and> num_threads (pool s) < max_threads (pool s)
              then [(False, cr)] else [])
       \<and> workers s' = workers s
           @ (if (queue_size (pool s) + 1) - (num_threads (pool s) - active_threads (pool s)) > 0
                 \<and> num_threads (pool s) < max_threads (pool s) \<and> ok cr
              then [\<lparr>permanent = False, place = Created\<rparr>] else [])
       \<and> (\<not> ok (fst (Submit r cur cr (pool s))) \<longleftrightarrow>
             (queue_size (pool s) + 1) - (num_threads (pool s) - active_threads (pool s)) > 0
             \<and> num_threads (pool s) < max_threads (pool s) \<and> \<not> ok cr \<and> num_threads (pool s) = 0)
       \<and> (\<not> ok (fst (Submit r cur cr (pool s))) \<longrightarrow>
             fst (Submit r cur cr (pool s)) = cr \<and> queue (pool s') = queue (pool s))
       \<and> (ok (fst (Submit r cur cr (pool s))) \<longrightarrow>
             fst (Submit r cur cr (pool s)) = OK
             \<and> queue (pool s') = queue (pool s) @ [\<lparr>runnable = r, trace = cur\<rparr>])"
proof -
  let ?p = "pool s"
  have inv: "sys_inv s" using re by (rule reachable_inv)
  have ns: "\<not> stuck s" using step by (auto simp: sys_step_def split: if_splits)
  obtain st p' where sub: "Submit r cur cr ?p = (st, p')" by (cases "Submit r cur cr ?p") auto
  have s': "s' = s\<lparr>pool := p', workers := workers s @ spawned (new_events ?p p')\<rparr>"
    using step ns sub by (simp add: sys_step_def)
  have le: "\<not> num_threads ?p < min_threads ?p"
    using running_min_le_num [OF inv ns running] by simp
  have sw: "spawn_wanted ?p \<longleftrightarrow>
      (queue_size ?p + 1) - (num_threads ?p - active_threads ?p) > 0 \<and> num_threads ?p < max_threads ?p"
    by (simp add: spawn_wanted_def)
  have 1: "thread_creates (new_events ?p (pool s')) = (if spawn_wanted ?p then [(False, cr)] else [])"
    using Submit_creates [OF running room, of r cur cr] sub s' le by simp
  have 2: "workers s' = workers s
             @ (if spawn_wanted ?p \<and> ok cr then [\<lparr>permanent = False, place = Created\<rparr>] else [])"
  proof (cases "ok st")
    case True
    from Submit_accepted [OF sub True] obtain es where
      "events p' = events ?p @ es"
      "spawned es = (if spawn_wanted ?p \<and> ok cr
                     then [\<lparr>permanent = num_threads ?p < min_threads ?p, place = Created\<rparr>] else [])"
      by blast
    then show ?thesis using s' le by (simp add: new_events_append)
  next
    case False
    from Submit_rejected [OF sub False] obtain es where
      "events p' = events ?p @ es" "spawned es = []" by blast
    moreover have "\<not> (spawn_wanted ?p \<and> ok cr)"
      using Submit_error_iff [of r cur cr ?p] sub False running room by auto
    ultimately show ?thesis using s' by (simp add: new_events_append)
  qed
  have 3: "\<not> ok (fst (Submit r cur cr ?p)) \<longleftrightarrow> spawn_wanted ?p \<and> \<not> ok cr \<and> num_threads ?p = 0"
    using Submit_error_iff [of r cur cr ?p] running room by simp
  have 4: "\<not> ok (fst (Submit r cur cr ?p)) \<longrightarrow>
             fst (Submit r cur cr ?p) = cr \<and> queue (pool s') = queue ?p"
    using Submit_error_value [of ?p r cur cr] Submit_rejected [OF sub] running room sub s' by auto
  have 5: "ok (fst (Submit r cur cr ?p)) \<longrightarrow>
             fst (Submit r cur cr ?p) = OK \<and> queue (pool s') = queue ?p @ [\<lparr>runnable = r, trace = cur\<rparr>]"
    using Submit_accepted [OF sub] sub s' by auto
  from 1 2 3 4 5 show ?thesis unfolding sw conj_assoc by (auto simp only:)
qed

theorem C5_spawn_on_submit_witness:
  "reachable demo_running
   \<and> sys_step (DoSubmit 7 (Some 3) OK) demo_running = Some (Inr demo_submitted)
   \<and> ok (pool_status (pool demo_running))
   \<and> queue_size (pool demo_running) \<noteq> max_queue_size (pool demo_running)
   \<and> thread_creates (new_events (pool demo_running) (pool demo_submitted)) = [(False, OK)]
   \<and> workers demo_submitted = workers demo_running @ [\<lparr>permanent = False, place = Created\<rparr>]
   \<and> queue (pool demo_submitted) = queue (pool demo_running) @ [\<lparr>runnable = 7, trace = Some 3\<rparr>]
   \<and> sys_step (DoSubmit 7 (Some 3) (RuntimeError ''Could not create thread'')) demo_running
       = Some (Inr demo_refused)
   \<and> fst (Submit 7 (Some 3) (RuntimeError ''Could not create thread'') (pool demo_running))
       = RuntimeError ''Could not create thread''
   \<and> queue (pool demo_refused) = queue (pool demo_running)"
proof -
  let ?e = "RuntimeError ''Could not create thread''"
  have st: "sys_step (DoSubmit 7 (Some 3) OK) demo_running = Some (Inr demo_submitted)"
    by (simp add: demo_eval demo_running_def demo_submitted_def)
  have run: "ok (pool_status (pool demo_running))"
    and room: "queue_size (pool demo_running) \<noteq> max_queue_size (pool demo_running)"
    by (simp_all add: demo_running_def)
  note c = C5_spawn_on_submit [OF demo_running_reachable st run room]
  have want: "(queue_size (pool demo_running) + 1)
                - (num_threads (pool demo_running) - active_threads (pool demo_running)) > 0
              \<and> num_threads (pool demo_running) < max_threads (pool demo_running)"
    and none: "num_threads (pool demo_running) = 0"
    by (simp_all add: demo_running_def)
  have acc: "ok (fst (Submit 7 (Some 3) OK (pool demo_running)))"
    using c want by auto
  have 1: "thread_creates (new_events (pool demo_running) (pool demo_submitted)) = [(False, OK)]"
    using c want by simp
  have 2: "workers demo_submitted = workers demo_running @ [\<lparr>permanent = False, place = Created\<rparr>]"
    using c want by simp
  have 3: "queue (pool demo_submitted) = queue (pool demo_running) @ [\<lparr>runnable = 7, trace = Some 3\<rparr>]"
    using c acc by blast
  have st': "sys_step (DoSubmit 7 (Some 3) ?e) demo_running = Some (Inr demo_refused)"
    by (simp add: demo_eval demo_running_def demo_refused_def)
  note c' = C5_spawn_on_submit [OF demo_running_reachable st' run room]
  have rej: "\<not> ok (fst (Submit 7 (Some 3) ?e (pool demo_running)))"
    using c' want none by simp
  have 4: "fst (Submit 7 (Some 3) ?e (pool demo_running)) = ?e
           \<and> queue (pool demo_refused) = queue (pool demo_running)"
    using c' rej by blast
  from demo_running_reachable st run room 1 2 3 st' 4 show ?thesis by blast
qed

section \<open>ThreadPool: the queue and its counter\<close>

lemma section_keeps_size:
  "DispatchThread_section perm r p = Inr (y, p') \<Longrightarrow> queue_size p = int (length (queue p)) \<Longrightarrow>
     queue_size p' = int (length (queue p'))"
  using section_effect [of perm r p y p'] by (cases y) auto

lemma Submit_keeps_size:
  "queue_size p = int (length (queue p)) \<Longrightarrow>
     queue_size (snd (Submit r cur cr p)) = int (length (queue (snd (Submit r cur cr p))))"
  using Submit_rejected [of r cur cr p "fst (Submit r cur cr p)" "snd (Submit r cur cr p)"]
    Submit_accepted [of r cur cr p "fst (Submit r cur cr p)" "snd (Submit r cur cr p)"]
  by (cases "ok (fst (Submit r cur cr p))") auto

text \<open>
  C9: \<open>queue_size\<close> equals the length of the queue: in a new pool; after
  \<^verbatim>\<open>Submit\<close> and after any critical section of a worker, if it did before; after
  \<^verbatim>\<open>ClearQueue\<close> and \<^verbatim>\<open>Shutdown\<close>; hence in every reachable state.
\<close>

theorem C9_queue_size_mirrors_queue:
  "queue_size (ThreadPool_new b :: 'r ThreadPool) = int (length (queue (ThreadPool_new b :: 'r ThreadPool)))
   \<and> (queue_size p = int (length (queue p)) \<longrightarrow>
        queue_size (snd (Submit r cur cr p)) = int (length (queue (snd (Submit r cur cr p)))))
   \<and> (queue_size p = int (length (queue p)) \<and> DispatchThread_section perm rs p = Inr (y, p') \<longrightarrow>
        queue_size p' = int (length (queue p')))
   \<and> queue_size (ClearQueue p) = int (length (queue (ClearQueue p)))
   \<and> queue_size (snd (Shutdown p)) = int (length (queue (snd (Shutdown p))))
   \<and> (reachable s \<longrightarrow> queue_size (pool s) = int (length (queue (pool s))))"
proof -
  have 1: "queue_size (ThreadPool_new b :: 'r ThreadPool) = int (length (queue (ThreadPool_new b :: 'r ThreadPool)))"
    by (simp add: ThreadPool_new_def)
  have 2: "queue_size p = int (length (queue p)) \<longrightarrow>
        queue_size (snd (Submit r cur cr p)) = int (length (queue (snd (Submit r cur cr p))))"
    by (simp add: Submit_keeps_size)
  have 3: "queue_size p = int (length (queue p)) \<and> DispatchThread_section perm rs p = Inr (y, p') \<longrightarrow>
        queue_size p' = int (length (queue p'))"
    by (auto intro: section_keeps_size)
  have 4: "queue_size (ClearQueue p) = int (length (queue (ClearQueue p)))"
    by (simp add: ClearQueue_def)
  have 5: "queue_size (snd (Shutdown p)) = int (length (queue (snd (Shutdown p))))"
    using Shutdown_enter_effect [of p] by (simp add: Shutdown_def Let_def)
  have 6: "reachable s \<longrightarrow> queue_size (pool s) = int (length (queue (pool s)))"
    using reachable_inv [of s] by (auto simp: sys_inv_def inv_counts_def)
  from 1 2 3 4 5 6 show ?thesis by blast
qed

theorem C9_queue_size_mirrors_queue_witness:
  "reachable demo_submitted
   \<and> queue_size (pool demo_submitted) = int (length (queue (pool demo_submitted)))
   \<and> queue_size (snd (Submit 8 None OK (pool demo_submitted)))
       = int (length (queue (snd (Submit 8 None OK (pool demo_submitted)))))
   \<and> DispatchThread_section False AtStart (pool demo_submitted)
       = Inr (Unlocked \<lparr>runnable = 7, trace = Some 3\<rparr>,
              (pool demo_submitted)\<lparr>queue := [], queue_size := 0, active_threads := 1\<rparr>)
   \<and> queue_size ((pool demo_submitted)\<lparr>queue := [], queue_size := 0, active_threads := 1\<rparr>)
       = int (length (queue ((pool demo_submitted)\<lparr>queue := [], queue_size := 0, active_threads := 1\<rparr>)))"
proof -
  let ?q = "(pool demo_submitted)\<lparr>queue := [], queue_size := 0, active_threads := 1\<rparr>"
  have st: "sys_step (DoSubmit 7 (Some 3) OK) demo_running = Some (Inr demo_submitted)"
    by (simp add: demo_eval demo_running_def demo_submitted_def)
  have re: "reachable demo_submitted"
    using demo_running_reachable st by (rule reachable_step)
  have sec: "DispatchThread_section False AtStart (pool demo_submitted)
       = Inr (Unlocked \<lparr>runnable = 7, trace = Some 3\<rparr>, ?q)"
    by (simp add: demo_eval demo_submitted_def)
  note c = C9_queue_size_mirrors_queue [of _ "pool demo_submitted" 8 None OK False AtStart
      "Unlocked \<lparr>runnable = 7, trace = Some 3\<rparr>" ?q demo_submitted]
  have 1: "queue_size (pool demo_submitted) = int (length (queue (pool demo_submitted)))"
    using c re by blast
  have 2: "queue_size (snd (Submit 8 None OK (pool demo_submitted)))
       = int (length (queue (snd (Submit 8 None OK (pool demo_submitted)))))"
    using c 1 by blast
  have 3: "queue_size ?q = int (length (queue ?q))"
    using c 1 sec by blast
  from re 1 2 sec 3 show ?thesis by blast
qed

section \<open>ThreadPool: workers leaving the loop\<close>

text \<open>
  C7: when a worker of a reachable pool leaves its loop, either the pool status is not OK,
  or the worker is not permanent, was in the timed wait, the wait reported a timeout and
  the queue is empty at the re-check. A permanent worker leaves only when the status is
  not OK. In both cases the queue is empty when the worker leaves, so no entry is lost.
  A timeout reported while the queue holds an entry does not end the loop: the worker
  takes the head of the queue.
\<close>

theorem C7_worker_exit:
  assumes re: "reachable s"
    and step: "sys_step (WorkerLocks i w) s = Some (Inr s')"
    and gone: "place (workers s' ! i) = Parked Exited"
  shows "(\<not> ok (pool_status (pool s))
          \<or> (\<not> permanent (workers s ! i) \<and> place (workers s ! i) = Parked InTimedWait
              \<and> w = TimedOut \<and> queue (pool s) = []))
       \<and> (permanent (workers s ! i) \<longrightarrow> \<not> ok (pool_status (pool s)))
       \<and> queue (pool s) = [] \<and> queue (pool s') = []
       \<and> (\<forall>e q perm p. ok (pool_status p) \<and> queue p = e # q \<longrightarrow>
             (\<exists>p'. DispatchThread_section perm (AfterTimedWait TimedOut) p = Inr (Unlocked e, p')
                    \<and> queue p' = q))"
proof -
  let ?w = "workers s ! i"
  have inv: "sys_inv s" using re by (rule reachable_inv)
  have ns: "\<not> stuck s" using step by (auto simp: sys_step_def split: if_splits)
  from step ns have i: "i < length (workers s)"
    by (auto simp: sys_step_def split: if_splits)
  from step ns i obtain r where r: "resume_of (place ?w) w = Some r"
    by (auto simp: sys_step_def split: option.splits)
  from step ns i r obtain y p' where
    sec: "DispatchThread_section (permanent ?w) r (pool s) = Inr (y, p')"
    and s': "s' = s\<lparr>pool := p', workers := (workers s)[i := ?w\<lparr>place := Parked y\<rparr>]\<rparr>"
    by (auto simp: sys_step_def split: sum.splits)
  have y: "y = Exited" using gone s' i by simp
  note e = section_effect [OF sec]
  note rf = resume_of_facts [OF r]
  have cons: "place ?w = Parked InTimedWait \<longrightarrow> \<not> permanent ?w"
    using inv i by (auto simp: sys_inv_def inv_workers_def list_all_iff)
  have why: "\<not> ok (pool_status (pool s)) \<or> r = AfterTimedWait TimedOut \<and> queue (pool s) = []"
    using e y by blast
  have tw: "r = AfterTimedWait TimedOut \<longrightarrow> place ?w = Parked InTimedWait \<and> w = TimedOut"
  proof
    assume a: "r = AfterTimedWait TimedOut"
    then have pl: "place ?w = Parked InTimedWait" using rf by blast
    then have "w = TimedOut" using r a by simp
    with pl show "place ?w = Parked InTimedWait \<and> w = TimedOut" by simp
  qed
  have 1: "\<not> ok (pool_status (pool s))
          \<or> (\<not> permanent ?w \<and> place ?w = Parked InTimedWait \<and> w = TimedOut \<and> queue (pool s) = [])"
    using why tw cons by blast
  have 2: "permanent ?w \<longrightarrow> \<not> ok (pool_status (pool s))" using 1 by blast
  have 3: "queue (pool s) = []"
    using why inv by (auto simp: sys_inv_def inv_queue_def)
  have 4: "queue (pool s') = []" using e y s' 3 by simp
  have 5: "\<forall>e q perm p. ok (pool_status p) \<and> queue p = e # q \<longrightarrow>
             (\<exists>p'. DispatchThread_section perm (AfterTimedWait TimedOut) p = Inr (Unlocked e, p')
                    \<and> queue p' = q)"
    by (simp add: DispatchThread_section_def DispatchThread_top_def)
  from 1 2 3 4 5 show ?thesis by blast
qed

theorem C7_worker_exit_witness:
  "reachable demo_timed_wait
   \<and> sys_step (WorkerLocks 0 TimedOut) demo_timed_wait = Some (Inr demo_reaped)
   \<and> place (workers demo_reaped ! 0) = Parked Exited
   \<and> \<not> permanent (workers demo_timed_wait ! 0)
   \<and> queue (pool demo_timed_wait) = [] \<and> queue (pool demo_reaped) = []
   \<and> reachable demo_permanent_down
   \<and> sys_step (WorkerLocks 0 Notified) demo_permanent_down = Some (Inr demo_permanent_gone)
   \<and> place (workers demo_permanent_gone ! 0) = Parked Exited
   \<and> permanent (workers demo_permanent_down ! 0)
   \<and> \<not> ok (pool_status (pool demo_permanent_down))"
proof -
  have st: "sys_step (WorkerLocks 0 TimedOut) demo_timed_wait = Some (Inr demo_reaped)"
    by (simp add: demo_eval demo_timed_wait_def demo_reaped_def)
  have gone: "place (workers demo_reaped ! 0) = Parked Exited"
    by (simp add: demo_reaped_def)
  have up: "ok (pool_status (pool demo_timed_wait))"
    by (simp add: demo_timed_wait_def)
  note c = C7_worker_exit [OF demo_timed_wait_reachable st gone]
  have 1: "\<not> permanent (workers demo_timed_wait ! 0)" using c up by blast
  have 2: "queue (pool demo_timed_wait) = [] \<and> queue (pool demo_reaped) = []" using c by blast
  have st': "sys_step (WorkerLocks 0 Notified) demo_permanent_down = Some (Inr demo_permanent_gone)"
    by (simp add: demo_eval demo_permanent_down_def demo_permanent_gone_def)
  have gone': "place (workers demo_permanent_gone ! 0) = Parked Exited"
    by (simp add: demo_permanent_gone_def)
  have perm: "permanent (workers demo_permanent_down ! 0)"
    by (simp add: demo_permanent_down_def)
  note c' = C7_worker_exit [OF demo_permanent_down_reachable st' gone']
  have 3: "\<not> ok (pool_status (pool demo_permanent_down))" using c' perm by blast
  from demo_timed_wait_reachable st gone 1 2 demo_permanent_down_reachable st' gone' perm 3
  show ?thesis by blast
qed

section \<open>ThreadPool: shutdown\<close>

lemma Init_effect_frame:
  assumes R: "Init cr p = InitReturned st p' \<or> Init cr p = InitStuck p'"
    and z: "IsUninitialized (pool_status p) \<longrightarrow> num_threads p = 0"
  shows "same_config p p' \<and> queue p' = queue p \<and> queue_size p' = queue_size p
     \<and> active_threads p' = active_threads p
     \<and> (\<not> IsUninitialized (pool_status p) \<longrightarrow> p' = p)
     \<and> (IsUninitialized (pool_status p) \<longrightarrow>
           pool_status p' = OK \<and> 0 \<le> num_threads p' \<and> num_threads p' \<le> max 0 (min_threads p))"
proof (cases "IsUninitialized (pool_status p)")
  case False
  then have "p' = p" using R by (auto simp: Init_def)
  then show ?thesis using False by (simp add: same_config_def)
next
  case True
  let ?i = "p\<lparr>pool_status := OK\<rparr>"
  have I: "Init cr p = Init_loop cr 0 (min_threads p) ?i" using True by (simp add: Init_def)
  have i0: "num_threads ?i = 0" and im: "min_threads p = min_threads ?i" using z True by simp_all
  from Init_loop_effect [OF I [symmetric] i0 im] obtain q es k where h:
    "Init cr p = InitReturned OK q \<and> num_threads q = max 0 (min_threads p)
       \<or> Init cr p = InitStuck q \<and> num_threads q < min_threads p"
    "same_config ?i q" "pool_status q = pool_status ?i" "queue q = queue ?i"
    "queue_size q = queue_size ?i" "active_threads q = active_threads ?i"
    "num_threads q = num_threads ?i + int k"
    by blast
  have "p' = q" using R h(1) by auto
  then show ?thesis using h z True by (auto simp: same_config_def)
qed

lemma shut_down_stable:
  assumes inv: "sys_inv s" and sd: "is_shut_down (pool s)" and st: "sys_step a s = Some (Inr s')"
  shows "is_shut_down (pool s') \<and> num_threads (pool s') \<le> num_threads (pool s)
         \<and> queue (pool s') = [] \<and> queue_size (pool s') = 0"
proof -
  let ?p = "pool s"
  have ns: "\<not> stuck s" using st by (auto simp: sys_step_def split: if_splits)
  have nok: "\<not> ok (pool_status ?p)" and nun: "\<not> IsUninitialized (pool_status ?p)"
    using sd by (simp_all add: is_shut_down_def)
  have inv': "sys_inv s'" using inv st by (rule sys_step_inv)
  have st': "pool_status (pool s') = pool_status ?p \<and> num_threads (pool s') \<le> num_threads ?p"
  proof (cases a)
    case (DoInit cr)
    then have "pool s' = ?p" using st ns nun by (auto simp: sys_step_def Init_def)
    then show ?thesis by simp
  next
    case (DoSubmit r cur cr)
    then have "pool s' = ?p" using st ns nok by (auto simp: sys_step_def Submit_def)
    then show ?thesis by simp
  next
    case DoShutdown
    then have "pool s' = Shutdown_enter ?p" using st ns by (auto simp: sys_step_def Shutdown_def Let_def)
    then show ?thesis using Shutdown_enter_effect [of ?p] sd by (simp add: is_shut_down_def)
  next
    case (WorkerLocks i w)
    from st ns WorkerLocks have i: "i < length (workers s)"
      by (auto simp: sys_step_def split: if_splits)
    from st ns WorkerLocks i obtain r where r: "resume_of (place (workers s ! i)) w = Some r"
      by (auto simp: sys_step_def split: option.splits)
    from st ns WorkerLocks i r obtain y p' where
      sec: "DispatchThread_section (permanent (workers s ! i)) r ?p = Inr (y, p')"
      and s': "pool s' = p'"
      by (auto simp: sys_step_def split: sum.splits)
    from section_effect [OF sec] s' show ?thesis by auto
  next
    case (WorkerRuns i)
    from st ns WorkerRuns obtain e where "pool s' = DispatchThread_unlocked e ?p"
      by (auto simp: sys_step_def split: if_splits place.splits yield.splits)
    then show ?thesis using unlocked_effect [of ?p e] by simp
  qed
  then have sd': "is_shut_down (pool s')" using sd by (simp add: is_shut_down_def)
  then have "\<not> ok (pool_status (pool s'))" by (simp add: is_shut_down_def)
  then have "queue (pool s') = []" "queue_size (pool s') = 0"
    using inv' by (simp_all add: sys_inv_def inv_queue_def inv_counts_def)
  with st' sd' show ?thesis by simp
qed

lemma idle_holds_nothing:
  assumes "how_many live ws = 0"
  shows "how_many (holds t) ws = 0"
proof -
  have "\<forall>w\<in>set ws. \<not> live w" using assms by (simp add: how_many_zero_iff)
  then have "\<forall>w\<in>set ws. \<not> holds t w" by (auto split: place.splits yield.splits)
  then show ?thesis by (simp add: how_many_zero_iff)
qed

lemma quiet_pool:
  assumes inv: "sys_inv s" and down: "\<not> ok (pool_status (pool s))"
    and ret: "Shutdown_loop (pool s) = ShutdownReturned"
  shows "num_threads (pool s) = 0 \<and> queue (pool s) = [] \<and> queue_size (pool s) = 0 \<and> balanced (pool s)"
proof -
  have "num_threads (pool s) \<le> 0" using ret by (simp add: Shutdown_loop_def split: if_splits)
  moreover have "0 \<le> num_threads (pool s)"
    using inv how_many_nonneg [of live "workers s"] by (simp add: sys_inv_def inv_counts_def)
  ultimately have n: "num_threads (pool s) = 0" by simp
  have q: "queue (pool s) = []" using inv down by (simp add: sys_inv_def inv_queue_def)
  have z: "queue_size (pool s) = 0" using inv q by (simp add: sys_inv_def inv_counts_def)
  have "how_many live (workers s) = 0" using inv n by (simp add: sys_inv_def inv_counts_def)
  then have "how_many (holds t) (workers s) = 0" for t by (rule idle_holds_nothing)
  then have "balanced (pool s)"
    using inv q by (simp add: sys_inv_def inv_traces_def balanced_def)
  with n q z show ?thesis by simp
qed

text \<open>
  C6: when \<^verbatim>\<open>Shutdown\<close> returns on a reachable pool, at once or after waiting,
  \<open>num_threads = 0\<close>, the queue is empty, \<open>queue_size = 0\<close> and every reference the
  pool took on a trace has been released. The call releases, for each trace, as many
  references as there are dropped entries holding it, before it wakes the workers. A
  further \<^verbatim>\<open>Shutdown\<close> on the pool so left returns at once and changes no field; it
  only notifies \<^verbatim>\<open>not_empty_\<close> again. Once the pool is shut down, no step of
  any thread brings it back: the status stays, the queue stays empty and the number of
  threads does not grow.
\<close>

theorem C6_shutdown:
  assumes re: "reachable s" and ns: "\<not> stuck s"
  shows "(Shutdown (pool s) = (ShutdownReturned, p') \<longrightarrow>
            num_threads p' = 0 \<and> queue p' = [] \<and> queue_size p' = 0 \<and> balanced p')
       \<and> (is_shut_down (pool s) \<and> Shutdown_wakeup (pool s) = (ShutdownReturned, p') \<longrightarrow>
            p' = pool s \<and> num_threads p' = 0 \<and> queue p' = [] \<and> queue_size p' = 0 \<and> balanced p')
       \<and> is_shut_down (snd (Shutdown (pool s)))
       \<and> events (snd (Shutdown (pool s)))
            = events (pool s) @ release_traces (queue (pool s)) @ [NotifyAll_not_empty]
       \<and> (\<forall>t. how_many (\<lambda>e. e = TraceRelease t) (release_traces (queue (pool s)))
               = how_many (\<lambda>e. trace e = Some t) (queue (pool s)))
       \<and> (is_shut_down (pool s) \<and> num_threads (pool s) = 0 \<longrightarrow>
            Shutdown (pool s) = (ShutdownReturned, emit [NotifyAll_not_empty] (pool s)))
       \<and> (is_shut_down (pool s) \<and> sys_step a s = Some (Inr s') \<longrightarrow>
            is_shut_down (pool s') \<and> num_threads (pool s') \<le> num_threads (pool s)
            \<and> queue (pool s') = [])"
proof -
  let ?p = "pool s"
  have inv: "sys_inv s" using re by (rule reachable_inv)
  have st: "sys_step DoShutdown s = Some (Inr (s\<lparr>pool := snd (Shutdown ?p)\<rparr>))"
    using ns by (simp add: sys_step_def)
  have inv2: "sys_inv (s\<lparr>pool := snd (Shutdown ?p)\<rparr>)"
    using inv st by (rule sys_step_inv)
  note e = Shutdown_enter_effect [of ?p]
  have sd: "snd (Shutdown ?p) = Shutdown_enter ?p" by (simp add: Shutdown_def Let_def)
  have 1: "Shutdown ?p = (ShutdownReturned, p') \<longrightarrow>
            num_threads p' = 0 \<and> queue p' = [] \<and> queue_size p' = 0 \<and> balanced p'"
  proof
    assume a: "Shutdown ?p = (ShutdownReturned, p')"
    then have p': "p' = snd (Shutdown ?p)" and l: "Shutdown_loop (Shutdown_enter ?p) = ShutdownReturned"
      by (auto simp: Shutdown_def Let_def)
    have "\<not> ok (pool_status (snd (Shutdown ?p)))" using e sd by simp
    from quiet_pool [OF inv2] this l sd p'
    show "num_threads p' = 0 \<and> queue p' = [] \<and> queue_size p' = 0 \<and> balanced p'" by simp
  qed
  have 2: "is_shut_down ?p \<and> Shutdown_wakeup ?p = (ShutdownReturned, p') \<longrightarrow>
            p' = ?p \<and> num_threads p' = 0 \<and> queue p' = [] \<and> queue_size p' = 0 \<and> balanced p'"
  proof
    assume a: "is_shut_down ?p \<and> Shutdown_wakeup ?p = (ShutdownReturned, p')"
    then have p': "p' = ?p" and l: "Shutdown_loop ?p = ShutdownReturned"
      and d: "\<not> ok (pool_status ?p)"
      by (auto simp: Shutdown_wakeup_def is_shut_down_def)
    from quiet_pool [OF inv d l] p'
    show "p' = ?p \<and> num_threads p' = 0 \<and> queue p' = [] \<and> queue_size p' = 0 \<and> balanced p'" by simp
  qed
  have 3: "is_shut_down (snd (Shutdown ?p))" using e sd by (simp add: is_shut_down_def)
  have 4: "events (snd (Shutdown ?p)) = events ?p @ release_traces (queue ?p) @ [NotifyAll_not_empty]"
    using e sd by simp
  have 5: "\<forall>t. how_many (\<lambda>e. e = TraceRelease t) (release_traces (queue ?p))
               = how_many (\<lambda>e. trace e = Some t) (queue ?p)"
    by (simp add: release_traces_count)
  have 6: "is_shut_down ?p \<and> num_threads ?p = 0 \<longrightarrow>
            Shutdown ?p = (ShutdownReturned, emit [NotifyAll_not_empty] ?p)"
  proof
    assume a: "is_shut_down ?p \<and> num_threads ?p = 0"
    then have d: "\<not> ok (pool_status ?p)" by (simp add: is_shut_down_def)
    have q: "queue ?p = []" using inv d by (simp add: sys_inv_def inv_queue_def)
    have z: "queue_size ?p = 0" using inv q by (simp add: sys_inv_def inv_counts_def)
    have "Shutdown_enter ?p = emit [NotifyAll_not_empty] ?p"
      using a q z by (simp add: Shutdown_enter_def ClearQueue_def emit_def is_shut_down_def)
    then show "Shutdown ?p = (ShutdownReturned, emit [NotifyAll_not_empty] ?p)"
      using a by (simp add: Shutdown_def Let_def Shutdown_loop_def emit_def)
  qed
  have 7: "is_shut_down ?p \<and> sys_step a s = Some (Inr s') \<longrightarrow>
            is_shut_down (pool s') \<and> num_threads (pool s') \<le> num_threads ?p \<and> queue (pool s') = []"
    using shut_down_stable [OF inv, of a s'] by blast
  from 1 2 3 4 5 6 7 show ?thesis by blast
qed

theorem C6_shutdown_witness:
  "reachable demo_down \<and> \<not> stuck demo_down \<and> is_shut_down (pool demo_down)
   \<and> Shutdown_wakeup (pool demo_down) = (ShutdownReturned, pool demo_down)
   \<and> num_threads (pool demo_down) = 0 \<and> queue (pool demo_down) = [] \<and> balanced (pool demo_down)
   \<and> Shutdown (pool demo_down) = (ShutdownReturned, emit [NotifyAll_not_empty] (pool demo_down))
   \<and> num_threads (emit [NotifyAll_not_empty] (pool demo_down)) = 0
   \<and> balanced (emit [NotifyAll_not_empty] (pool demo_down))
   \<and> sys_step DoShutdown demo_down
        = Some (Inr (demo_down\<lparr>pool := emit [NotifyAll_not_empty] (pool demo_down)\<rparr>))
   \<and> is_shut_down (pool (demo_down\<lparr>pool := emit [NotifyAll_not_empty] (pool demo_down)\<rparr>))"
proof -
  let ?p' = "emit [NotifyAll_not_empty] (pool demo_down)"
  have ns: "\<not> stuck demo_down" and sd: "is_shut_down (pool demo_down)"
    and wk: "Shutdown_wakeup (pool demo_down) = (ShutdownReturned, pool demo_down)"
    by (simp_all add: demo_down_def is_shut_down_def Shutdown_wakeup_def Shutdown_loop_def)
  note c = C6_shutdown [OF demo_down_reachable ns, of "pool demo_down"]
  have 1: "num_threads (pool demo_down) = 0 \<and> queue (pool demo_down) = [] \<and> balanced (pool demo_down)"
    using c sd wk by blast
  then have 2: "Shutdown (pool demo_down) = (ShutdownReturned, ?p')"
    using c sd by blast
  have 3: "num_threads ?p' = 0 \<and> balanced ?p'"
    using C6_shutdown [OF demo_down_reachable ns, of ?p'] 2 by blast
  have st: "sys_step DoShutdown demo_down = Some (Inr (demo_down\<lparr>pool := ?p'\<rparr>))"
    using ns 2 by (simp add: sys_step_def)
  have 4: "is_shut_down (pool (demo_down\<lparr>pool := ?p'\<rparr>))"
    using C6_shutdown [OF demo_down_reachable ns, of _ DoShutdown "demo_down\<lparr>pool := ?p'\<rparr>"] sd st
    by blast
  from demo_down_reachable ns sd wk 1 2 3 st 4 show ?thesis by blast
qed

section \<open>ThreadPool: the counters stay in range\<close>

lemma reachable_thread_bound:
  "reachable s \<Longrightarrow> num_threads (pool s) \<le> max (min_threads (pool s)) (max_threads (pool s))"
proof (induction rule: reachable.induct)
  case (reachable_new b)
  then show ?case using built_bounds [of b] by (simp add: sys_new_def ThreadPool_new_def max_def)
next
  case (reachable_step s a s')
  let ?p = "pool s"
  have inv: "sys_inv s" using reachable_step.hyps(1) by (rule reachable_inv)
  have ns: "\<not> stuck s" using reachable_step.hyps(2) by (auto simp: sys_step_def split: if_splits)
  note st = reachable_step.hyps(2)
  note IH = reachable_step.IH
  show ?case
  proof (cases a)
    case (DoInit cr)
    obtain stt p' where R: "Init cr ?p = InitReturned stt p' \<or> Init cr ?p = InitStuck p'"
      and p': "pool s' = p'"
      using st ns DoInit by (cases "Init cr ?p") (auto simp: sys_step_def)
    have n0: "IsUninitialized (pool_status ?p) \<longrightarrow> num_threads ?p = 0"
      using inv by (auto simp: sys_inv_def inv_workers_def inv_counts_def)
    have m1: "1 \<le> max_threads ?p" using inv by (simp add: sys_inv_def inv_config_def)
    from Init_effect_frame [OF R n0] IH p' m1 show ?thesis
      by (cases "IsUninitialized (pool_status ?p)") (auto simp: same_config_def)
  next
    case (DoSubmit r cur cr)
    obtain x p' where sub: "Submit r cur cr ?p = (x, p')" by (cases "Submit r cur cr ?p") auto
    then have p': "pool s' = p'" using st ns DoSubmit by (auto simp: sys_step_def)
    show ?thesis
    proof (cases "ok x")
      case True
      from Submit_accepted [OF sub True] Submit_frame [OF sub] IH p' show ?thesis
        by (auto simp: same_config_def spawn_wanted_def)
    next
      case False
      from Submit_rejected [OF sub False] Submit_frame [OF sub] IH p' show ?thesis
        by (auto simp: same_config_def)
    qed
  next
    case DoShutdown
    then have "pool s' = Shutdown_enter ?p" using st ns by (auto simp: sys_step_def Shutdown_def Let_def)
    then show ?thesis using Shutdown_enter_effect [of ?p] IH by (simp add: same_config_def)
  next
    case (WorkerLocks i w)
    from st ns WorkerLocks have i: "i < length (workers s)"
      by (auto simp: sys_step_def split: if_splits)
    from st ns WorkerLocks i obtain r where r: "resume_of (place (workers s ! i)) w = Some r"
      by (auto simp: sys_step_def split: option.splits)
    from st ns WorkerLocks i r obtain y p' where
      sec: "DispatchThread_section (permanent (workers s ! i)) r ?p = Inr (y, p')"
      and s': "pool s' = p'"
      by (auto simp: sys_step_def split: sum.splits)
    from section_effect [OF sec] s' IH show ?thesis by (auto simp: same_config_def)
  next
    case (WorkerRuns i)
    from st ns WorkerRuns obtain e where "pool s' = DispatchThread_unlocked e ?p"
      by (auto simp: sys_step_def split: if_splits place.splits yield.splits)
    then show ?thesis using unlocked_effect [of ?p e] IH by (simp add: same_config_def)
  qed
qed

text \<open>
  The counters are C++ \<^verbatim>\<open>int\<close>s. With the three limits of the builder in the range
  of \<^verbatim>\<open>int\<close>, every value that a critical section computes from a reachable state is
  in that range as well, so the arithmetic of the model is the arithmetic of the code.
\<close>

lemma counters_in_range:
  assumes re: "reachable s"
    and lim: "min_threads (pool s) \<le> INT_MAX" "max_threads (pool s) \<le> INT_MAX"
             "max_queue_size (pool s) \<le> INT_MAX"
  shows "0 \<le> queue_size (pool s) \<and> queue_size (pool s) \<le> INT_MAX
       \<and> 0 \<le> active_threads (pool s) \<and> active_threads (pool s) \<le> num_threads (pool s)
       \<and> num_threads (pool s) \<le> INT_MAX
       \<and> (queue_size (pool s) \<noteq> max_queue_size (pool s) \<longrightarrow> queue_size (pool s) + 1 \<le> INT_MAX)
       \<and> (num_threads (pool s) < max_threads (pool s) \<longrightarrow> num_threads (pool s) + 1 \<le> INT_MAX)
       \<and> - INT_MAX \<le> (queue_size (pool s) + 1) - (num_threads (pool s) - active_threads (pool s))"
proof -
  let ?p = "pool s"
  have inv: "sys_inv s" using re by (rule reachable_inv)
  have q0: "0 \<le> queue_size ?p" using inv by (simp add: sys_inv_def inv_counts_def)
  have q1: "queue_size ?p \<le> max_queue_size ?p" using inv by (simp add: sys_inv_def inv_queue_def)
  have a0: "0 \<le> active_threads ?p"
    using inv how_many_nonneg [of busy "workers s"] by (simp add: sys_inv_def inv_counts_def)
  have "how_many busy (workers s) \<le> how_many live (workers s)"
    by (rule how_many_mono) (auto split: place.splits yield.splits)
  then have a1: "active_threads ?p \<le> num_threads ?p"
    using inv by (simp add: sys_inv_def inv_counts_def)
  have n1: "num_threads ?p \<le> max (min_threads ?p) (max_threads ?p)"
    using re by (rule reachable_thread_bound)
  from q0 q1 a0 a1 n1 lim show ?thesis by (auto simp: INT_MAX_def)
qed

section \<open>TaskExecutor: a rejected submission\<close>

lemma spawned_Created: "wk \<in> set (spawned es) \<Longrightarrow> place wk = Created"
  by (induction es rule: spawned.induct) (auto split: if_splits)

lemma spawned_held: "concat (map held (spawned es)) = []"
  by (induction es rule: spawned.induct) auto

lemma Init_loop_queue:
  "Init_loop cr i n p = R \<Longrightarrow>
     (\<exists>st p'. (R = InitReturned st p' \<or> R = InitStuck p') \<and> queue p' = queue p)"
proof (induction cr i n p arbitrary: R rule: Init_loop.induct)
  case (1 cr i n p)
  show ?case
  proof (cases "i < n")
    case False
    then show ?thesis using "1.prems" by auto
  next
    case True
    obtain s p1 where c: "CreateThreadUnlocked (cr (nat i)) p = (s, p1)"
      by (cases "CreateThreadUnlocked (cr (nat i)) p") auto
    have q: "queue p1 = queue p"
      using c by (auto simp: CreateThreadUnlocked_def Let_def emit_def split: if_splits)
    show ?thesis
    proof (cases "ok s")
      case False
      then have "R = InitStuck p1" using "1.prems" True c by simp
      then show ?thesis using q by simp
    next
      case ok: True
      then have "Init_loop cr (i + 1) n p1 = R" using "1.prems" True c by simp
      from "1.IH" [OF True c [symmetric] _ this] ok q show ?thesis by auto
    qed
  qed
qed

lemma Init_queue:
  "Init cr p = InitReturned st p' \<or> Init cr p = InitStuck p' \<Longrightarrow> queue p' = queue p"
proof (cases "IsUninitialized (pool_status p)")
  case False
  assume "Init cr p = InitReturned st p' \<or> Init cr p = InitStuck p'"
  then show ?thesis using False by (auto simp: Init_def)
next
  case True
  assume a: "Init cr p = InitReturned st p' \<or> Init cr p = InitStuck p'"
  have "Init cr p = Init_loop cr 0 (min_threads p) (p\<lparr>pool_status := OK\<rparr>)"
    using True by (simp add: Init_def)
  from Init_loop_queue [OF this [symmetric]] a show ?thesis by auto
qed

lemma held_update_subset:
  "i < length ws \<Longrightarrow>
     set (concat (map held (ws[i := wk]))) \<subseteq> set (concat (map held ws)) \<union> set (held wk)"
proof (induction ws arbitrary: i)
  case Nil
  then show ?case by simp
next
  case (Cons a ws)
  show ?case
  proof (cases i)
    case 0
    then show ?thesis by auto
  next
    case (Suc j)
    then have "j < length ws" using Cons.prems by simp
    from Cons.IH [OF this] Suc show ?thesis by auto
  qed
qed

lemma referenced_step:
  assumes st: "sys_step a s = Some (Inr s')"
  shows "referenced s' \<subseteq> referenced s \<union> submitted a"
proof -
  have ns: "\<not> stuck s" using st by (auto simp: sys_step_def split: if_splits)
  show ?thesis
  proof (cases a)
    case (DoInit cr)
    obtain x p' where R: "Init cr (pool s) = InitReturned x p' \<or> Init cr (pool s) = InitStuck p'"
      and s': "pool s' = p'" "workers s' = workers s @ spawned (new_events (pool s) p')"
      using st ns DoInit by (cases "Init cr (pool s)") (auto simp: sys_step_def)
    from Init_queue [OF R] s' show ?thesis by (auto simp: referenced_def spawned_held)
  next
    case (DoSubmit r cur cr)
    obtain x p' where sub: "Submit r cur cr (pool s) = (x, p')"
      by (cases "Submit r cur cr (pool s)") auto
    then have s': "pool s' = p'" "workers s' = workers s @ spawned (new_events (pool s) p')"
      using st ns DoSubmit by (auto simp: sys_step_def)
    have "set (map runnable (queue p')) \<subseteq> set (map runnable (queue (pool s))) \<union> {r}"
      using Submit_rejected [OF sub] Submit_accepted [OF sub] by (cases "ok x") auto
    then show ?thesis using s' DoSubmit by (auto simp: referenced_def spawned_held)
  next
    case DoShutdown
    then have "pool s' = Shutdown_enter (pool s)" "workers s' = workers s"
      using st ns by (auto simp: sys_step_def Shutdown_def Let_def)
    then show ?thesis using Shutdown_enter_effect [of "pool s"] by (auto simp: referenced_def)
  next
    case (WorkerLocks i w)
    from st ns WorkerLocks have i: "i < length (workers s)"
      by (auto simp: sys_step_def split: if_splits)
    from st ns WorkerLocks i obtain r where r: "resume_of (place (workers s ! i)) w = Some r"
      by (auto simp: sys_step_def split: option.splits)
    from st ns WorkerLocks i r obtain y p' where
      sec: "DispatchThread_section (permanent (workers s ! i)) r (pool s) = Inr (y, p')"
      and s': "pool s' = p'" "workers s' = (workers s)[i := (workers s ! i)\<lparr>place := Parked y\<rparr>]"
      by (auto simp: sys_step_def split: sum.splits)
    have q: "queue (pool s) = (case y of Unlocked e \<Rightarrow> e # queue p' | _ \<Rightarrow> queue p')"
      using section_effect [OF sec] by blast
    have h: "set (held ((workers s ! i)\<lparr>place := Parked y\<rparr>)) \<union> set (map runnable (queue p'))
               \<subseteq> set (map runnable (queue (pool s)))"
      using q by (cases y) auto
    from held_update_subset [OF i, of "(workers s ! i)\<lparr>place := Parked y\<rparr>"] h s'
    show ?thesis unfolding referenced_def by auto
  next
    case (WorkerRuns i)
    from st ns WorkerRuns have i: "i < length (workers s)"
      by (auto simp: sys_step_def split: if_splits)
    from st ns WorkerRuns i obtain e where
      s': "pool s' = DispatchThread_unlocked e (pool s)"
          "workers s' = (workers s)[i := (workers s ! i)\<lparr>place := Relocking\<rparr>]"
      by (auto simp: sys_step_def split: place.splits yield.splits)
    have q: "queue (pool s') = queue (pool s)" using s' unlocked_effect [of "pool s" e] by simp
    from held_update_subset [OF i, of "(workers s ! i)\<lparr>place := Relocking\<rparr>"] s' q
    show ?thesis unfolding referenced_def by auto
  qed
qed

lemma held_referenced:
  "i < length (workers s) \<Longrightarrow> place (workers s ! i) = Parked (Unlocked e) \<Longrightarrow>
     runnable e \<in> referenced s"
proof -
  assume i: "i < length (workers s)" and p: "place (workers s ! i) = Parked (Unlocked e)"
  have "workers s ! i \<in> set (workers s)" using i by simp
  moreover have "runnable e \<in> set (held (workers s ! i))" using p by simp
  ultimately show ?thesis unfolding referenced_def by auto
qed

lemma rejected_not_referenced:
  assumes st: "sys_step (DoSubmit r cur cr) s = Some (Inr s')"
    and rej: "\<not> ok (fst (Submit r cur cr (pool s)))"
  shows "referenced s' = referenced s \<and> pool s' = snd (Submit r cur cr (pool s))"
proof -
  have ns: "\<not> stuck s" using st by (auto simp: sys_step_def split: if_splits)
  obtain x p' where sub: "Submit r cur cr (pool s) = (x, p')"
    by (cases "Submit r cur cr (pool s)") auto
  then have s': "pool s' = p'" "workers s' = workers s @ spawned (new_events (pool s) p')"
    using st ns by (auto simp: sys_step_def)
  have "queue p' = queue (pool s)" using Submit_rejected [OF sub] rej sub by simp
  then show ?thesis using s' sub by (simp add: referenced_def spawned_held)
qed

text \<open>Every object the pool refers to has been allocated.\<close>

lemma world_step_next:
  "world_step T X w w' \<Longrightarrow>
     next_obj w \<le> next_obj w' \<and> (psys w' = psys w \<or> (\<exists>a. sys_step a (psys w) = Some (Inr (psys w'))
          \<and> submitted a \<subseteq> {..<next_obj w'} - (X - {next_obj w})))"
proof (induction rule: world_step.induct)
  case (ws_submit dchecks t future cur cr w st future' ex' s')
  have "next_addr ex' = next_obj w + 1"
    using ws_submit(1)
    by (auto simp: TaskExecutor_Submit_def executor_of_def Let_def split: if_splits prod.splits)
  then show ?case using ws_submit(2) by (auto intro!: exI [of _ "DoSubmit (next_obj w) cur cr"])
next
  case (ws_resubmit a w cur cr st ex' s')
  then show ?case by (auto intro!: exI [of _ "DoSubmit a cur cr"])
next
  case (ws_init cr w s')
  then show ?case by (auto intro!: exI [of _ "DoInit cr"])
next
  case (ws_shutdown w s')
  then show ?case by (auto intro!: exI [of _ DoShutdown])
next
  case (ws_worker_locks i wr w s')
  then show ?case by (auto intro!: exI [of _ "WorkerLocks i wr"])
next
  case (ws_run_end w i s')
  then show ?case by (auto intro!: exI [of _ "WorkerRuns i"])
qed auto

lemma world_reachable_referenced:
  "world_reachable T w \<Longrightarrow> referenced (psys w) \<subseteq> {..<next_obj w}"
proof (induction rule: world_reachable.induct)
  case (world_reachable_new b)
  show ?case by (simp add: world_new_def referenced_def sys_new_def ThreadPool_new_def)
next
  case (world_reachable_step w w')
  from world_step_next [OF world_reachable_step.hyps(2)]
  have n: "next_obj w \<le> next_obj w'"
    and c: "psys w' = psys w \<or> (\<exists>a. sys_step a (psys w) = Some (Inr (psys w'))
          \<and> submitted a \<subseteq> {..<next_obj w'})" by auto
  from c show ?case
  proof
    assume "psys w' = psys w"
    then show ?thesis using world_reachable_step.IH n by auto
  next
    assume "\<exists>a. sys_step a (psys w) = Some (Inr (psys w')) \<and> submitted a \<subseteq> {..<next_obj w'}"
    then obtain a where a: "sys_step a (psys w) = Some (Inr (psys w'))"
      and s: "submitted a \<subseteq> {..<next_obj w'}" by blast
    have "referenced (psys w) \<subseteq> {..<next_obj w'}" using world_reachable_step.IH n by auto
    then show ?thesis using referenced_step [OF a] s by blast
  qed
qed

lemma world_reachable_queue_allocated:
  "world_reachable T w \<Longrightarrow> queue_allocated (executor_of w)"
  using world_reachable_referenced [of T w]
  by (auto simp: queue_allocated_def executor_of_def referenced_def list_all_iff)

text \<open>What \<^verbatim>\<open>Abort\<close> and \<^verbatim>\<open>AddListener\<close> do to a future that is never run.\<close>

lemma future_ops_snoc:
  "future_ops T (os @ [FAbort]) ft = snd (Abort T (future_ops T os ft))"
  "future_ops T (os @ [FAddListener l]) ft = AddListener l (future_ops T os ft)"
  by (induction T os ft rule: future_ops.induct) auto

lemma Abort_step:
  "latch (snd (Abort T ft)) = latch ft
   \<and> listeners (snd (Abort T ft)) = listeners ft
   \<and> fired (calls (snd (Abort T ft))) = fired (calls ft)
   \<and> (CountDown \<in> set (calls (snd (Abort T ft))) \<longleftrightarrow> CountDown \<in> set (calls ft))
   \<and> (TaskRun \<in> set (calls (snd (Abort T ft))) \<longleftrightarrow> TaskRun \<in> set (calls ft))
   \<and> (state ft = kTaskPendingState \<longrightarrow>
         state (snd (Abort T ft)) = (if fst (Abort T ft) then kTaskAbortedState else kTaskPendingState))
   \<and> (state ft = kTaskAbortedState \<longrightarrow> state (snd (Abort T ft)) = kTaskAbortedState)"
  by (simp add: Abort_def Let_def call_def fired_append split: prod.splits)

lemma AddListener_step:
  "latch (AddListener l ft) = latch ft
   \<and> state (AddListener l ft) = state ft
   \<and> (CountDown \<in> set (calls (AddListener l ft)) \<longleftrightarrow> CountDown \<in> set (calls ft))
   \<and> (TaskRun \<in> set (calls (AddListener l ft)) \<longleftrightarrow> TaskRun \<in> set (calls ft))
   \<and> (state ft = kTaskPendingState \<longrightarrow>
         listeners (AddListener l ft) = listeners ft @ [l] \<and> calls (AddListener l ft) = calls ft)
   \<and> (state ft = kTaskAbortedState \<longrightarrow>
         listeners (AddListener l ft) = listeners ft
         \<and> fired (calls (AddListener l ft)) = fired (calls ft) @ [l])"
  by (simp add: AddListener_def call_def fired_append)

lemma future_ops_quiet:
  "latch (future_ops T os ft) = latch ft
   \<and> (CountDown \<in> set (calls (future_ops T os ft)) \<longleftrightarrow> CountDown \<in> set (calls ft))
   \<and> (TaskRun \<in> set (calls (future_ops T os ft)) \<longleftrightarrow> TaskRun \<in> set (calls ft))"
proof (induction os arbitrary: ft)
  case Nil
  show ?case by simp
next
  case (Cons a os)
  show ?case
  proof (cases a)
    case FAbort
    then show ?thesis using Cons.IH [of "snd (Abort T ft)"] Abort_step [of T ft] by simp
  next
    case (FAddListener l)
    then show ?thesis using Cons.IH [of "AddListener l ft"] AddListener_step [of l ft] by simp
  qed
qed

lemma future_ops_aborted:
  "state ft = kTaskAbortedState \<Longrightarrow>
     state (future_ops T os ft) = kTaskAbortedState
     \<and> listeners (future_ops T os ft) = listeners ft
     \<and> fired (calls (future_ops T os ft)) = fired (calls ft) @ added os"
proof (induction os arbitrary: ft)
  case Nil
  then show ?case by simp
next
  case (Cons a os)
  show ?case
  proof (cases a)
    case FAbort
    have "state (snd (Abort T ft)) = kTaskAbortedState" using Cons.prems Abort_step [of T ft] by simp
    from Cons.IH [OF this] FAbort Abort_step [of T ft] show ?thesis by simp
  next
    case (FAddListener l)
    have "state (AddListener l ft) = kTaskAbortedState"
      using Cons.prems AddListener_step [of l ft] by simp
    from Cons.IH [OF this] FAddListener AddListener_step [of l ft] Cons.prems show ?thesis by simp
  qed
qed

lemma future_ops_pending:
  "state ft = kTaskPendingState \<Longrightarrow>
     (state (future_ops T os ft) = kTaskPendingState
        \<and> listeners (future_ops T os ft) = listeners ft @ added os
        \<and> fired (calls (future_ops T os ft)) = fired (calls ft))
     \<or> (state (future_ops T os ft) = kTaskAbortedState
        \<and> (\<exists>os1 os2. os = os1 @ FAbort # os2
              \<and> state (future_ops T os1 ft) = kTaskPendingState
              \<and> fst (Abort T (future_ops T os1 ft))
              \<and> listeners (future_ops T os ft) = listeners ft @ added os1
              \<and> fired (calls (future_ops T os ft)) = fired (calls ft) @ added os2))"
proof (induction os arbitrary: ft)
  case Nil
  then show ?case by simp
next
  case (Cons a os)
  show ?case
  proof (cases a)
    case (FAddListener l)
    let ?ft = "AddListener l ft"
    have s: "state ?ft = kTaskPendingState" and ls: "listeners ?ft = listeners ft @ [l]"
      and cs: "calls ?ft = calls ft"
      using Cons.prems AddListener_step [of l ft] by simp_all
    from Cons.IH [OF s] show ?thesis
    proof
      assume "state (future_ops T os ?ft) = kTaskPendingState
        \<and> listeners (future_ops T os ?ft) = listeners ?ft @ added os
        \<and> fired (calls (future_ops T os ?ft)) = fired (calls ?ft)"
      then show ?thesis using FAddListener ls cs by simp
    next
      assume "state (future_ops T os ?ft) = kTaskAbortedState
        \<and> (\<exists>os1 os2. os = os1 @ FAbort # os2
              \<and> state (future_ops T os1 ?ft) = kTaskPendingState
              \<and> fst (Abort T (future_ops T os1 ?ft))
              \<and> listeners (future_ops T os ?ft) = listeners ?ft @ added os1
              \<and> fired (calls (future_ops T os ?ft)) = fired (calls ?ft) @ added os2)"
      then obtain os1 os2 where h: "state (future_ops T os ?ft) = kTaskAbortedState"
        "os = os1 @ FAbort # os2" "state (future_ops T os1 ?ft) = kTaskPendingState"
        "fst (Abort T (future_ops T os1 ?ft))"
        "listeners (future_ops T os ?ft) = listeners ?ft @ added os1"
        "fired (calls (future_ops T os ?ft)) = fired (calls ?ft) @ added os2"
        by blast
      have "a # os = (FAddListener l # os1) @ FAbort # os2" using h(2) FAddListener by simp
      moreover have "state (future_ops T (FAddListener l # os1) ft) = kTaskPendingState"
        "fst (Abort T (future_ops T (FAddListener l # os1) ft))"
        using h(3,4) by simp_all
      moreover have "listeners (future_ops T (a # os) ft) = listeners ft @ added (FAddListener l # os1)"
        "fired (calls (future_ops T (a # os) ft)) = fired (calls ft) @ added os2"
        "state (future_ops T (a # os) ft) = kTaskAbortedState"
        using h FAddListener ls cs by simp_all
      ultimately show ?thesis by blast
    qed
  next
    case FAbort
    let ?ft = "snd (Abort T ft)"
    note st = Abort_step [of T ft]
    show ?thesis
    proof (cases "fst (Abort T ft)")
      case True
      then have s: "state ?ft = kTaskAbortedState" using st Cons.prems by simp
      from future_ops_aborted [OF s, of T os] st
      have "state (future_ops T (a # os) ft) = kTaskAbortedState"
        "listeners (future_ops T (a # os) ft) = listeners ft @ added []"
        "fired (calls (future_ops T (a # os) ft)) = fired (calls ft) @ added os"
        using FAbort by simp_all
      moreover have "a # os = [] @ FAbort # os" using FAbort by simp
      moreover have "state (future_ops T [] ft) = kTaskPendingState" "fst (Abort T (future_ops T [] ft))"
        using Cons.prems True by simp_all
      ultimately show ?thesis by blast
    next
      case False
      then have s: "state ?ft = kTaskPendingState" using st Cons.prems by simp
      from Cons.IH [OF s] show ?thesis
      proof
        assume "state (future_ops T os ?ft) = kTaskPendingState
          \<and> listeners (future_ops T os ?ft) = listeners ?ft @ added os
          \<and> fired (calls (future_ops T os ?ft)) = fired (calls ?ft)"
        then show ?thesis using FAbort st by simp
      next
        assume "state (future_ops T os ?ft) = kTaskAbortedState
          \<and> (\<exists>os1 os2. os = os1 @ FAbort # os2
                \<and> state (future_ops T os1 ?ft) = kTaskPendingState
                \<and> fst (Abort T (future_ops T os1 ?ft))
                \<and> listeners (future_ops T os ?ft) = listeners ?ft @ added os1
                \<and> fired (calls (future_ops T os ?ft)) = fired (calls ?ft) @ added os2)"
        then obtain os1 os2 where h: "state (future_ops T os ?ft) = kTaskAbortedState"
          "os = os1 @ FAbort # os2" "state (future_ops T os1 ?ft) = kTaskPendingState"
          "fst (Abort T (future_ops T os1 ?ft))"
          "listeners (future_ops T os ?ft) = listeners ?ft @ added os1"
          "fired (calls (future_ops T os ?ft)) = fired (calls ?ft) @ added os2"
          by blast
        have "a # os = (FAbort # os1) @ FAbort # os2" using h(2) FAbort by simp
        moreover have "state (future_ops T (FAbort # os1) ft) = kTaskPendingState"
          "fst (Abort T (future_ops T (FAbort # os1) ft))"
          using h(3,4) by simp_all
        moreover have "listeners (future_ops T (a # os) ft) = listeners ft @ added (FAbort # os1)"
          "fired (calls (future_ops T (a # os) ft)) = fired (calls ft) @ added os2"
          "state (future_ops T (a # os) ft) = kTaskAbortedState"
          using h FAbort st by simp_all
        ultimately show ?thesis by blast
      qed
    qed
  qed
qed

text \<open>
  An object that the pool does not refer to and that is not submitted again is changed by
  \<^verbatim>\<open>Abort\<close> and \<^verbatim>\<open>AddListener\<close> only.
\<close>

lemma untouched_step:
  assumes st: "world_step T X w w'"
    and aX: "a \<in> X" and al: "a < next_obj w" and ar: "a \<notin> referenced (psys w)"
    and ob: "\<exists>os. objs w a = Some (future_ops T os ft0)"
  shows "a < next_obj w' \<and> a \<notin> referenced (psys w') \<and> (\<exists>os. objs w' a = Some (future_ops T os ft0))"
  using st aX al ar ob
proof (induction rule: world_step.induct)
  case (ws_submit dchecks t future cur cr w st future' ex' s')
  have ex': "store ex' = (objs w)(next_obj w \<mapsto> FutureTask_new t)" "next_addr ex' = next_obj w + 1"
    using ws_submit(1)
    by (auto simp: TaskExecutor_Submit_def executor_of_def Let_def split: if_splits prod.splits)
  have "a \<notin> submitted (DoSubmit (next_obj w) cur cr)" using ws_submit.prems by simp
  then have "a \<notin> referenced s'" using referenced_step [OF ws_submit(2)] ws_submit.prems by blast
  then show ?case using ws_submit.prems ex' by auto
next
  case (ws_resubmit b w cur cr st ex' s')
  have "a \<notin> submitted (DoSubmit b cur cr)" using ws_resubmit by auto
  then have "a \<notin> referenced s'" using referenced_step [OF ws_resubmit(4)] ws_resubmit.prems by blast
  then show ?case using ws_resubmit.prems by simp
next
  case (ws_init cr w s')
  then show ?case using referenced_step [OF ws_init(1)] by auto
next
  case (ws_shutdown w s')
  then show ?case using referenced_step [OF ws_shutdown(1)] by auto
next
  case (ws_worker_locks i wr w s')
  then show ?case using referenced_step [OF ws_worker_locks(1)] by auto
next
  case (ws_run_begin i w e ft)
  have "runnable e \<noteq> a" using held_referenced [OF ws_run_begin(1,2)] ws_run_begin.prems by auto
  then show ?case using ws_run_begin.prems by simp
next
  case (ws_run_task i w e ft)
  have "runnable e \<noteq> a" using held_referenced [OF ws_run_task(1,2)] ws_run_task.prems by auto
  then show ?case using ws_run_task.prems by simp
next
  case (ws_run_mark i w e ft)
  have "runnable e \<noteq> a" using held_referenced [OF ws_run_mark(1,2)] ws_run_mark.prems by auto
  then show ?case using ws_run_mark.prems by simp
next
  case (ws_run_notify i w e ft)
  have "runnable e \<noteq> a" using held_referenced [OF ws_run_notify(1,2)] ws_run_notify.prems by auto
  then show ?case using ws_run_notify.prems by simp
next
  case (ws_run_end w i s')
  then show ?case using referenced_step [OF ws_run_end(2)] by auto
next
  case (ws_abort w b ft)
  show ?case
  proof (cases "b = a")
    case True
    from ws_abort.prems obtain os where os: "objs w a = Some (future_ops T os ft0)" by blast
    then have "ft = future_ops T os ft0" using ws_abort(1) True by simp
    then have "snd (Abort T ft) = future_ops T (os @ [FAbort]) ft0" by (simp add: future_ops_snoc)
    then show ?thesis using ws_abort.prems True by auto
  next
    case False
    then show ?thesis using ws_abort.prems by simp
  qed
next
  case (ws_add_listener w b ft l)
  show ?case
  proof (cases "b = a")
    case True
    from ws_add_listener.prems obtain os where os: "objs w a = Some (future_ops T os ft0)" by blast
    then have "ft = future_ops T os ft0" using ws_add_listener(1) True by simp
    then have "AddListener l ft = future_ops T (os @ [FAddListener l]) ft0"
      by (simp add: future_ops_snoc)
    then show ?thesis using ws_add_listener.prems True by auto
  next
    case False
    then show ?thesis using ws_add_listener.prems by simp
  qed
qed

lemma untouched_run:
  assumes run: "world_run T X w w'"
    and aX: "a \<in> X" and al: "a < next_obj w" and ar: "a \<notin> referenced (psys w)"
    and ob: "\<exists>os. objs w a = Some (future_ops T os ft0)"
  shows "a < next_obj w' \<and> a \<notin> referenced (psys w') \<and> (\<exists>os. objs w' a = Some (future_ops T os ft0))"
  using run al ar ob
proof (induction rule: world_run.induct)
  case (world_run_refl w)
  then show ?case by simp
next
  case (world_run_step w w' w'')
  have h: "a < next_obj w' \<and> a \<notin> referenced (psys w')
           \<and> (\<exists>os. objs w' a = Some (future_ops T os ft0))"
    using world_run_step.IH world_run_step.prems by blast
  from untouched_step [OF world_run_step.hyps(2) aX, of ft0] h show ?case by blast
qed

lemma demo_world_reachable: "world_reachable abortable demo_world"
  unfolding demo_world_def by (rule world_reachable_new, rule built_new) simp

lemma demo_world_later: "world_run abortable {0} demo_world_rejected demo_world_listening"
proof -
  have 1: "objs demo_world_rejected 0 = Some (FutureTask_new ())"
    by (simp add: demo_world_rejected_def)
  have 2: "objs demo_world_aborted 0 = Some (snd (Abort abortable (FutureTask_new ())))"
    by (simp add: demo_world_aborted_def)
  have a: "world_step abortable {0} demo_world_rejected demo_world_aborted"
    unfolding demo_world_aborted_def using 1 by (rule ws_abort)
  have b: "world_step abortable {0} demo_world_aborted demo_world_listening"
    unfolding demo_world_listening_def using 2 by (rule ws_add_listener)
  from world_run_refl a have "world_run abortable {0} demo_world_rejected demo_world_aborted"
    by (rule world_run_step)
  then show ?thesis using b by (rule world_run_step)
qed

text \<open>
  C10 (as the spec states it): after a rejected submission the listeners of the future the
  caller holds never fire. They can: the caller aborts the future, the task agrees, and
  the listener added next is called at its registration.
\<close>

theorem C10_listener_fires_counterexample:
  "TaskExecutor_Submit False () (Some None) None OK idle_executor
     = Inr (Uninitialized ''The pool was not initialized.'', Some (Some 0),
            idle_executor\<lparr>store := [0 \<mapsto> FutureTask_new ()], next_addr := 1\<rparr>)
   \<and> state (FutureTask_new () :: (nat, unit) FutureTask) = kTaskPendingState
   \<and> fst (Abort abortable (FutureTask_new () :: (nat, unit) FutureTask))
   \<and> calls (AddListener 2 (snd (Abort abortable (FutureTask_new () :: (nat, unit) FutureTask))))
       = [TaskAbort, OnSuccess 2]"
  by (simp add: TaskExecutor_Submit_def idle_executor_def Submit_def ThreadPool_new_def Let_def
        Abort_def AddListener_def FutureTask_new_def abortable_def call_def)

text \<open>
  C10 (amended): \<^verbatim>\<open>TaskExecutor::Submit\<close> puts the new \<^verbatim>\<open>FutureTask\<close> into the
  caller's handle whatever the pool answers. When the pool rejects the submission, the
  caller holds a future in state Pending to which the pool does not refer, neither then nor
  at any later moment, whatever the threads do (the caller has no
  \<^verbatim>\<open>FutureTask\<close> pointer to submit it again). So the future is changed by
  \<^verbatim>\<open>Abort\<close> and \<^verbatim>\<open>AddListener\<close> only: its task never runs and its latch is
  never counted down. As long as no \<^verbatim>\<open>Abort\<close> has succeeded it stays Pending, every
  listener added is kept in the list and none is called. After a successful
  \<^verbatim>\<open>Abort\<close> it is Aborted: the listeners added before stay in the list and are
  never called, and each listener added afterwards is called once, at its registration.
\<close>

theorem C10_rejected_submit:
  assumes re: "world_reachable T w"
    and sub: "TaskExecutor_Submit dchecks t (Some h) cur cr (executor_of w) = Inr (st, future', ex')"
    and step: "sys_step (DoSubmit (next_obj w) cur cr) (psys w) = Some (Inr s')"
    and rej: "\<not> ok st"
    and later: "world_run T {next_obj w}
                  (w\<lparr>psys := s', objs := store ex', next_obj := next_addr ex'\<rparr>) w''"
  shows "future' = Some (Some (next_obj w))
     \<and> store ex' (next_obj w) = Some (FutureTask_new t)
     \<and> state (FutureTask_new t :: ('l, 't) FutureTask) = kTaskPendingState
     \<and> thread_pool ex' = pool s'
     \<and> queue (thread_pool ex') = queue (pool (psys w))
     \<and> next_obj w \<notin> runnable ` set (queue (thread_pool ex'))
     \<and> next_obj w \<notin> referenced (psys w'')
     \<and> (\<exists>os ft. objs w'' (next_obj w) = Some ft \<and> ft = future_ops T os (FutureTask_new t)
           \<and> latch ft = 1 \<and> CountDown \<notin> set (calls ft) \<and> TaskRun \<notin> set (calls ft)
           \<and> (state ft = kTaskPendingState \<and> listeners ft = added os \<and> fired (calls ft) = []
               \<or> state ft = kTaskAbortedState
                  \<and> (\<exists>os1 os2. os = os1 @ FAbort # os2
                        \<and> state (future_ops T os1 (FutureTask_new t :: ('l, 't) FutureTask))
                            = kTaskPendingState
                        \<and> fst (Abort T (future_ops T os1 (FutureTask_new t :: ('l, 't) FutureTask)))
                        \<and> listeners ft = added os1 \<and> fired (calls ft) = added os2)))"
proof -
  let ?a = "next_obj w"
  let ?new = "FutureTask_new t :: ('l, 't) FutureTask"
  let ?w' = "w\<lparr>psys := s', objs := store ex', next_obj := next_addr ex'\<rparr>"
  obtain p' where ps: "Submit ?a cur cr (pool (psys w)) = (st, p')"
    and ex': "ex' = (executor_of w)\<lparr>store := (objs w)(?a \<mapsto> ?new), next_addr := ?a + 1,
                                  thread_pool := p'\<rparr>"
    and f': "future' = Some (Some ?a)"
    using sub by (auto simp: TaskExecutor_Submit_def executor_of_def Let_def split: if_splits prod.splits)
  have rej': "\<not> ok (fst (Submit ?a cur cr (pool (psys w))))" using ps rej by simp
  from rejected_not_referenced [OF step rej'] ps
  have rs: "referenced s' = referenced (psys w)" and pl: "pool s' = p'" by simp_all
  have q: "queue p' = queue (pool (psys w))" using Submit_rejected [OF ps rej] by simp
  have fresh: "?a \<notin> referenced (psys w)" using world_reachable_referenced [OF re] by auto
  then have nq: "?a \<notin> runnable ` set (queue (pool (psys w)))" by (auto simp: referenced_def)
  have 1: "?a < next_obj ?w'" using ex' by simp
  have 2: "?a \<notin> referenced (psys ?w')" using fresh rs by simp
  have 3: "\<exists>os. objs ?w' ?a = Some (future_ops T os ?new)"
    using ex' by (auto intro: exI [of _ "[]"])
  from untouched_run [OF later _ 1 2 3]
  obtain os where nr: "?a \<notin> referenced (psys w'')"
    and ob: "objs w'' ?a = Some (future_ops T os ?new)" by auto
  let ?obj = "future_ops T os ?new"
  have quiet: "latch ?obj = 1 \<and> CountDown \<notin> set (calls ?obj) \<and> TaskRun \<notin> set (calls ?obj)"
    using future_ops_quiet [of T os ?new] by (simp add: FutureTask_new_def)
  have p0: "state ?new = kTaskPendingState" by (simp add: FutureTask_new_def)
  have shape: "state ?obj = kTaskPendingState \<and> listeners ?obj = added os \<and> fired (calls ?obj) = []
               \<or> state ?obj = kTaskAbortedState
                  \<and> (\<exists>os1 os2. os = os1 @ FAbort # os2
                        \<and> state (future_ops T os1 ?new) = kTaskPendingState
                        \<and> fst (Abort T (future_ops T os1 ?new))
                        \<and> listeners ?obj = added os1 \<and> fired (calls ?obj) = added os2)"
    using future_ops_pending [OF p0, of T os] by (simp add: FutureTask_new_def)
  have last: "\<exists>os ft. objs w'' ?a = Some ft \<and> ft = future_ops T os ?new
           \<and> latch ft = 1 \<and> CountDown \<notin> set (calls ft) \<and> TaskRun \<notin> set (calls ft)
           \<and> (state ft = kTaskPendingState \<and> listeners ft = added os \<and> fired (calls ft) = []
               \<or> state ft = kTaskAbortedState
                  \<and> (\<exists>os1 os2. os = os1 @ FAbort # os2
                        \<and> state (future_ops T os1 ?new) = kTaskPendingState
                        \<and> fst (Abort T (future_ops T os1 ?new))
                        \<and> listeners ft = added os1 \<and> fired (calls ft) = added os2))"
    using ob quiet shape by blast
  have a: "future' = Some (Some ?a)" by (rule f')
  have b: "store ex' ?a = Some ?new" using ex' by simp
  have c: "thread_pool ex' = pool s'" using ex' pl by simp
  have d: "queue (thread_pool ex') = queue (pool (psys w))" using ex' q by simp
  have e: "?a \<notin> runnable ` set (queue (thread_pool ex'))" using d nq by simp
  from a b p0 c d e nr last show ?thesis by blast
qed

theorem C10_rejected_submit_witness:
  "world_reachable abortable demo_world
   \<and> TaskExecutor_Submit False () (Some None) None OK (executor_of demo_world)
       = Inr (Uninitialized ''The pool was not initialized.'', Some (Some 0),
              (executor_of demo_world)\<lparr>store := [0 \<mapsto> FutureTask_new ()], next_addr := 1\<rparr>)
   \<and> sys_step (DoSubmit (next_obj demo_world) None OK) (psys demo_world) = Some (Inr (psys demo_world))
   \<and> \<not> ok (Uninitialized ''The pool was not initialized.'')
   \<and> world_run abortable {next_obj demo_world} demo_world_rejected demo_world_listening
   \<and> objs demo_world_listening 0 = Some (AddListener 2 (snd (Abort abortable (FutureTask_new ()))))
   \<and> 0 \<notin> referenced (psys demo_world_listening)
   \<and> latch (AddListener 2 (snd (Abort abortable (FutureTask_new () :: (nat, unit) FutureTask)))) = 1
   \<and> CountDown \<notin> set (calls (AddListener 2 (snd (Abort abortable
          (FutureTask_new () :: (nat, unit) FutureTask)))))"
proof -
  let ?st = "Uninitialized ''The pool was not initialized.''"
  let ?ex' = "(executor_of demo_world)\<lparr>store := [0 \<mapsto> FutureTask_new ()], next_addr := 1\<rparr>"
  let ?x = "AddListener 2 (snd (Abort abortable (FutureTask_new () :: (nat, unit) FutureTask)))"
  have n0: "next_obj demo_world = 0" by (simp add: demo_world_def world_new_def)
  have sub: "TaskExecutor_Submit False () (Some None) None OK (executor_of demo_world)
       = Inr (?st, Some (Some 0), ?ex')"
    by (simp add: TaskExecutor_Submit_def executor_of_def demo_world_def world_new_def sys_new_def
          Submit_def ThreadPool_new_def Let_def)
  have step: "sys_step (DoSubmit (next_obj demo_world) None OK) (psys demo_world)
                = Some (Inr (psys demo_world))"
    by (simp add: sys_step_def demo_world_def world_new_def sys_new_def Submit_def ThreadPool_new_def)
  have rej: "\<not> ok ?st" by simp
  have start: "demo_world\<lparr>psys := psys demo_world, objs := store ?ex', next_obj := next_addr ?ex'\<rparr>
                 = demo_world_rejected"
    by (simp add: demo_world_rejected_def)
  have later: "world_run abortable {next_obj demo_world}
                 (demo_world\<lparr>psys := psys demo_world, objs := store ?ex', next_obj := next_addr ?ex'\<rparr>)
                 demo_world_listening"
    unfolding start n0 by (rule demo_world_later)
  have later': "world_run abortable {next_obj demo_world} demo_world_rejected demo_world_listening"
    unfolding n0 by (rule demo_world_later)
  have ob: "objs demo_world_listening 0 = Some ?x"
    by (simp add: demo_world_listening_def)
  note c = C10_rejected_submit [OF demo_world_reachable sub step rej later]
  have 1: "0 \<notin> referenced (psys demo_world_listening)" using c n0 by simp
  have 2: "latch ?x = 1 \<and> CountDown \<notin> set (calls ?x)"
    using c ob n0 by auto
  from demo_world_reachable sub step rej later' ob 1 2 show ?thesis by blast
qed

end
